theory Spec2Isabelle
  imports Complex_Main "HOL-Library.Monad_Syntax"
begin

section \<open>Numeric model\<close>

text \<open>
  The program computes with Python floats.  They are modelled as real numbers: every
  arithmetic operation is exact, and rounding, overflow and NaN are outside the model.
  Python raises ZeroDivisionError on a float division by zero and ValueError on the
  square root of a negative number; an operation that can raise returns an option, with
  \<open>None\<close> for the exception.

  The model and the program agree on a run in which every intermediate result is a float
  that the real operation gives exactly (small integers, halves, powers of two: the runs
  evaluated below are of this kind), and on every comparison whose two sides are far
  apart.  They differ where a product or sum rounds or overflows: the float \<open>x * x\<close> is
  \<open>inf\<close> above about \<open>1.3e154\<close>, so \<open>magnitude\<close> is \<open>inf\<close> and \<open>normalized\<close> the zero vector
  there, and the float \<open>determinant\<close> can round to 0 or overflow, so \<open>inverse\<close> can return
  \<open>None\<close>, or a zero matrix, for a matrix that has an inverse.  How large the rounding
  errors of \<open>normalized\<close> and of \<open>inverse\<close> are is therefore not stated in this theory.
\<close>

definition PI :: real where
  "PI = pi"

definition DEG_TO_RAD :: real where
  "DEG_TO_RAD = PI / 180"

definition EPSILON :: real where
  "EPSILON = 1 / 10 ^ 10"

definition py_div :: "real \<Rightarrow> real \<Rightarrow> real option" where
  "py_div a b = (if b = 0 then None else Some (a / b))"

definition py_sqrt :: "real \<Rightarrow> real option" where
  "py_sqrt a = (if a < 0 then None else Some (sqrt a))"

definition lerp :: "real \<Rightarrow> real \<Rightarrow> real \<Rightarrow> real" where
  "lerp a b t = a + (b - a) * t"

definition clamp :: "real \<Rightarrow> real \<Rightarrow> real \<Rightarrow> real" where
  "clamp val min_val max_val = max min_val (min max_val val)"

section \<open>Vector3\<close>

datatype vector3 = Vector3 (vx: real) (vy: real) (vz: real)

definition v_zero :: vector3 where
  "v_zero = Vector3 0 0 0"

definition v_one :: vector3 where
  "v_one = Vector3 1 1 1"

definition v_up :: vector3 where
  "v_up = Vector3 0 1 0"

definition magnitude :: "vector3 \<Rightarrow> real" where
  "magnitude v = sqrt (vx v * vx v + vy v * vy v + vz v * vz v)"

definition magnitude_squared :: "vector3 \<Rightarrow> real" where
  "magnitude_squared v = vx v * vx v + vy v * vy v + vz v * vz v"

text \<open>The property \<open>Vector3.normalized\<close>: the zero vector below \<open>EPSILON\<close>, else each
  component divided by the magnitude.\<close>

definition normalized :: "vector3 \<Rightarrow> vector3 option" where
  "normalized v =
     (let mag = magnitude v in
      if mag < EPSILON then Some v_zero
      else do {
        x \<leftarrow> py_div (vx v) mag;
        y \<leftarrow> py_div (vy v) mag;
        z \<leftarrow> py_div (vz v) mag;
        Some (Vector3 x y z)
      })"

definition dot :: "vector3 \<Rightarrow> vector3 \<Rightarrow> real" where
  "dot a b = vx a * vx b + vy a * vy b + vz a * vz b"

definition cross :: "vector3 \<Rightarrow> vector3 \<Rightarrow> vector3" where
  "cross a b = Vector3 (vy a * vz b - vz a * vy b)
                       (vz a * vx b - vx a * vz b)
                       (vx a * vy b - vy a * vx b)"

definition v_sub :: "vector3 \<Rightarrow> vector3 \<Rightarrow> vector3" where
  "v_sub a b = Vector3 (vx a - vx b) (vy a - vy b) (vz a - vz b)"

definition v_add :: "vector3 \<Rightarrow> vector3 \<Rightarrow> vector3" where
  "v_add a b = Vector3 (vx a + vx b) (vy a + vy b) (vz a + vz b)"

definition v_scale :: "vector3 \<Rightarrow> real \<Rightarrow> vector3" where
  "v_scale a k = Vector3 (vx a * k) (vy a * k) (vz a * k)"

section \<open>Matrix4\<close>

text \<open>A 4x4 matrix in row-major order: \<open>mij\<close> is the entry \<open>self.m[i][j]\<close>.\<close>

datatype matrix4 = Matrix4
  (m00: real) (m01: real) (m02: real) (m03: real)
  (m10: real) (m11: real) (m12: real) (m13: real)
  (m20: real) (m21: real) (m22: real) (m23: real)
  (m30: real) (m31: real) (m32: real) (m33: real)

definition m_identity :: matrix4 where
  "m_identity = Matrix4 1 0 0 0  0 1 0 0  0 0 1 0  0 0 0 1"

definition m_zero :: matrix4 where
  "m_zero = Matrix4 0 0 0 0  0 0 0 0  0 0 0 0  0 0 0 0"

text \<open>\<open>Matrix4.__mul__\<close> on a matrix: the triple loop adds the four products of row
  \<open>i\<close> and column \<open>j\<close> to the zero entry.\<close>

definition mat_mul :: "matrix4 \<Rightarrow> matrix4 \<Rightarrow> matrix4" where
  "mat_mul a b = Matrix4
     (0 + m00 a * m00 b + m01 a * m10 b + m02 a * m20 b + m03 a * m30 b)
     (0 + m00 a * m01 b + m01 a * m11 b + m02 a * m21 b + m03 a * m31 b)
     (0 + m00 a * m02 b + m01 a * m12 b + m02 a * m22 b + m03 a * m32 b)
     (0 + m00 a * m03 b + m01 a * m13 b + m02 a * m23 b + m03 a * m33 b)
     (0 + m10 a * m00 b + m11 a * m10 b + m12 a * m20 b + m13 a * m30 b)
     (0 + m10 a * m01 b + m11 a * m11 b + m12 a * m21 b + m13 a * m31 b)
     (0 + m10 a * m02 b + m11 a * m12 b + m12 a * m22 b + m13 a * m32 b)
     (0 + m10 a * m03 b + m11 a * m13 b + m12 a * m23 b + m13 a * m33 b)
     (0 + m20 a * m00 b + m21 a * m10 b + m22 a * m20 b + m23 a * m30 b)
     (0 + m20 a * m01 b + m21 a * m11 b + m22 a * m21 b + m23 a * m31 b)
     (0 + m20 a * m02 b + m21 a * m12 b + m22 a * m22 b + m23 a * m32 b)
     (0 + m20 a * m03 b + m21 a * m13 b + m22 a * m23 b + m23 a * m33 b)
     (0 + m30 a * m00 b + m31 a * m10 b + m32 a * m20 b + m33 a * m30 b)
     (0 + m30 a * m01 b + m31 a * m11 b + m32 a * m21 b + m33 a * m31 b)
     (0 + m30 a * m02 b + m31 a * m12 b + m32 a * m22 b + m33 a * m32 b)
     (0 + m30 a * m03 b + m31 a * m13 b + m32 a * m23 b + m33 a * m33 b)"

text \<open>The twelve 2x2 subdeterminants that \<open>determinant\<close> and \<open>inverse\<close> both compute.\<close>

definition sub_s :: "matrix4 \<Rightarrow> real \<times> real \<times> real \<times> real \<times> real \<times> real" where
  "sub_s m =
     (m00 m * m11 m - m10 m * m01 m,
      m00 m * m12 m - m10 m * m02 m,
      m00 m * m13 m - m10 m * m03 m,
      m01 m * m12 m - m11 m * m02 m,
      m01 m * m13 m - m11 m * m03 m,
      m02 m * m13 m - m12 m * m03 m)"

definition sub_c :: "matrix4 \<Rightarrow> real \<times> real \<times> real \<times> real \<times> real \<times> real" where
  "sub_c m =
     (m20 m * m31 m - m30 m * m21 m,
      m20 m * m32 m - m30 m * m22 m,
      m20 m * m33 m - m30 m * m23 m,
      m21 m * m32 m - m31 m * m22 m,
      m21 m * m33 m - m31 m * m23 m,
      m22 m * m33 m - m32 m * m23 m)"

definition determinant :: "matrix4 \<Rightarrow> real" where
  "determinant m =
     (case sub_s m of (s0, s1, s2, s3, s4, s5) \<Rightarrow>
      case sub_c m of (c0, c1, c2, c3, c4, c5) \<Rightarrow>
        s0 * c5 - s1 * c4 + s2 * c3 + s3 * c2 - s4 * c1 + s5 * c0)"

text \<open>The property \<open>Matrix4.inverse\<close>: \<open>None\<close> when the determinant is below \<open>EPSILON\<close> in
  absolute value.  Past that guard the divisor of \<open>1.0 / det\<close> is not zero.\<close>

definition inverse_m :: "matrix4 \<Rightarrow> matrix4 option" where
  "inverse_m m =
     (case sub_s m of (s0, s1, s2, s3, s4, s5) \<Rightarrow>
      case sub_c m of (c0, c1, c2, c3, c4, c5) \<Rightarrow>
        let det = s0 * c5 - s1 * c4 + s2 * c3 + s3 * c2 - s4 * c1 + s5 * c0 in
        if \<bar>det\<bar> < EPSILON then None
        else
          let inv_det = 1 / det in
          Some (Matrix4
            ((m11 m * c5 - m12 m * c4 + m13 m * c3) * inv_det)
            ((- m01 m * c5 + m02 m * c4 - m03 m * c3) * inv_det)
            ((m31 m * s5 - m32 m * s4 + m33 m * s3) * inv_det)
            ((- m21 m * s5 + m22 m * s4 - m23 m * s3) * inv_det)
            ((- m10 m * c5 + m12 m * c2 - m13 m * c1) * inv_det)
            ((m00 m * c5 - m02 m * c2 + m03 m * c1) * inv_det)
            ((- m30 m * s5 + m32 m * s2 - m33 m * s1) * inv_det)
            ((m20 m * s5 - m22 m * s2 + m23 m * s1) * inv_det)
            ((m10 m * c4 - m11 m * c2 + m13 m * c0) * inv_det)
            ((- m00 m * c4 + m01 m * c2 - m03 m * c0) * inv_det)
            ((m30 m * s4 - m31 m * s2 + m33 m * s0) * inv_det)
            ((- m20 m * s4 + m21 m * s2 - m23 m * s0) * inv_det)
            ((- m10 m * c3 + m11 m * c1 - m12 m * c0) * inv_det)
            ((m00 m * c3 - m01 m * c1 + m02 m * c0) * inv_det)
            ((- m30 m * s3 + m31 m * s1 - m32 m * s0) * inv_det)
            ((m20 m * s3 - m21 m * s1 + m22 m * s0) * inv_det)))"

text \<open>\<open>Matrix4.transform_point\<close>: the projective transform with the divide by \<open>w\<close>, where
  a \<open>w\<close> below \<open>EPSILON\<close> in absolute value is replaced by 1.\<close>

definition transform_point :: "matrix4 \<Rightarrow> vector3 \<Rightarrow> vector3" where
  "transform_point m v =
     (let w0 = m30 m * vx v + m31 m * vy v + m32 m * vz v + m33 m;
          w = (if \<bar>w0\<bar> < EPSILON then 1 else w0)
      in Vector3
        ((m00 m * vx v + m01 m * vy v + m02 m * vz v + m03 m) / w)
        ((m10 m * vx v + m11 m * vy v + m12 m * vz v + m13 m) / w)
        ((m20 m * vx v + m21 m * vy v + m22 m * vz v + m23 m) / w))"

definition get_translation :: "matrix4 \<Rightarrow> vector3" where
  "get_translation m = Vector3 (m03 m) (m13 m) (m23 m)"

text \<open>\<open>Matrix4.perspective\<close>.  The three divisors are not guarded in the source, so a zero
  divisor is the ZeroDivisionError.  Where \<open>fov / 2\<close> is an odd multiple of \<open>pi / 2\<close> the real
  tangent does not exist and \<open>tan\<close> of HOL is 0, which makes the model raise; no float is
  such a multiple (the float \<open>math.tan(PI / 2)\<close> is finite), so the model says nothing about
  the program there.  The setter of \<open>fov\<close> keeps \<open>fov / 2\<close> inside \<open>(0, pi / 2)\<close>.\<close>

definition perspective :: "real \<Rightarrow> real \<Rightarrow> real \<Rightarrow> real \<Rightarrow> matrix4 option" where
  "perspective fov aspect near far =
     (let tan_half_fov = tan (fov / 2) in
      do {
        a \<leftarrow> py_div 1 (aspect * tan_half_fov);
        b \<leftarrow> py_div 1 tan_half_fov;
        c \<leftarrow> py_div (- (far + near)) (far - near);
        d \<leftarrow> py_div (- (2 * far * near)) (far - near);
        Some (Matrix4 a 0 0 0  0 b 0 0  0 0 c d  0 0 (- 1) 0)
      })"

definition orthographic ::
  "real \<Rightarrow> real \<Rightarrow> real \<Rightarrow> real \<Rightarrow> real \<Rightarrow> real \<Rightarrow> matrix4 option" where
  "orthographic lft rgt btm tp near far =
     do {
       a \<leftarrow> py_div 2 (rgt - lft);
       b \<leftarrow> py_div 2 (tp - btm);
       c \<leftarrow> py_div (- 2) (far - near);
       tx \<leftarrow> py_div (- (rgt + lft)) (rgt - lft);
       ty \<leftarrow> py_div (- (tp + btm)) (tp - btm);
       tz \<leftarrow> py_div (- (far + near)) (far - near);
       Some (Matrix4 a 0 0 tx  0 b 0 ty  0 0 c tz  0 0 0 1)
     }"

section \<open>Quaternion\<close>

datatype quaternion = Quaternion (qx: real) (qy: real) (qz: real) (qw: real)

definition q_identity :: quaternion where
  "q_identity = Quaternion 0 0 0 1"

definition from_quaternion :: "quaternion \<Rightarrow> matrix4" where
  "from_quaternion q =
     (let x = qx q; y = qy q; z = qz q; w = qw q;
          x2 = x + x; y2 = y + y; z2 = z + z;
          xx = x * x2; xy = x * y2; xz = x * z2;
          yy = y * y2; yz = y * z2; zz = z * z2;
          wx = w * x2; wy = w * y2; wz = w * z2
      in Matrix4
        (1 - (yy + zz)) (xy - wz) (xz + wy) 0
        (xy + wz) (1 - (xx + zz)) (yz - wx) 0
        (xz - wy) (yz + wx) (1 - (xx + yy)) 0
        0 0 0 1)"

text \<open>\<open>Matrix4.trs\<close>: the rotation matrix with row 0 multiplied by \<open>scale.x\<close>, row 1 by
  \<open>scale.y\<close>, row 2 by \<open>scale.z\<close>, and the translation in the last column.\<close>

definition trs :: "vector3 \<Rightarrow> quaternion \<Rightarrow> vector3 \<Rightarrow> matrix4" where
  "trs translation rotation scale =
     (let r = from_quaternion rotation in
      Matrix4
        (m00 r * vx scale) (m01 r * vx scale) (m02 r * vx scale) (vx translation)
        (m10 r * vy scale) (m11 r * vy scale) (m12 r * vy scale) (vy translation)
        (m20 r * vz scale) (m21 r * vz scale) (m22 r * vz scale) (vz translation)
        (m30 r) (m31 r) (m32 r) (m33 r))"

text \<open>\<open>Quaternion.from_matrix\<close>: four branches on the trace and the diagonal; the square
  root raises ValueError on a negative argument and the divisions raise on zero.\<close>

definition from_matrix :: "matrix4 \<Rightarrow> quaternion option" where
  "from_matrix m =
     (let trace = m00 m + m11 m + m22 m in
      if trace > 0 then do {
        r \<leftarrow> py_sqrt (trace + 1);
        s \<leftarrow> py_div 0.5 r;
        w \<leftarrow> py_div 0.25 s;
        Some (Quaternion ((m21 m - m12 m) * s) ((m02 m - m20 m) * s) ((m10 m - m01 m) * s) w)
      }
      else if m00 m > m11 m \<and> m00 m > m22 m then do {
        r \<leftarrow> py_sqrt (1 + m00 m - m11 m - m22 m);
        let s = 2 * r;
        y \<leftarrow> py_div (m01 m + m10 m) s;
        z \<leftarrow> py_div (m02 m + m20 m) s;
        w \<leftarrow> py_div (m21 m - m12 m) s;
        Some (Quaternion (0.25 * s) y z w)
      }
      else if m11 m > m22 m then do {
        r \<leftarrow> py_sqrt (1 + m11 m - m00 m - m22 m);
        let s = 2 * r;
        x \<leftarrow> py_div (m01 m + m10 m) s;
        z \<leftarrow> py_div (m12 m + m21 m) s;
        w \<leftarrow> py_div (m02 m - m20 m) s;
        Some (Quaternion x (0.25 * s) z w)
      }
      else do {
        r \<leftarrow> py_sqrt (1 + m22 m - m00 m - m11 m);
        let s = 2 * r;
        x \<leftarrow> py_div (m02 m + m20 m) s;
        y \<leftarrow> py_div (m12 m + m21 m) s;
        w \<leftarrow> py_div (m10 m - m01 m) s;
        Some (Quaternion x y (0.25 * s) w)
      })"

text \<open>\<open>Matrix4.decompose\<close>: translation from the last column, scale as the magnitudes of
  the three columns (the first negated under a negative determinant), rotation from the
  columns divided by those magnitudes.\<close>

definition decompose :: "matrix4 \<Rightarrow> (vector3 \<times> quaternion \<times> vector3) option" where
  "decompose m =
     (let translation = Vector3 (m03 m) (m13 m) (m23 m);
          sx0 = magnitude (Vector3 (m00 m) (m10 m) (m20 m));
          sy = magnitude (Vector3 (m01 m) (m11 m) (m21 m));
          sz = magnitude (Vector3 (m02 m) (m12 m) (m22 m));
          sx = (if determinant m < 0 then - sx0 else sx0);
          scale = Vector3 sx sy sz
      in do {
        r00 \<leftarrow> py_div (m00 m) sx; r01 \<leftarrow> py_div (m01 m) sy; r02 \<leftarrow> py_div (m02 m) sz;
        r10 \<leftarrow> py_div (m10 m) sx; r11 \<leftarrow> py_div (m11 m) sy; r12 \<leftarrow> py_div (m12 m) sz;
        r20 \<leftarrow> py_div (m20 m) sx; r21 \<leftarrow> py_div (m21 m) sy; r22 \<leftarrow> py_div (m22 m) sz;
        rotation \<leftarrow> from_matrix (Matrix4 r00 r01 r02 0  r10 r11 r12 0  r20 r21 r22 0  0 0 0 1);
        Some (translation, rotation, scale)
      })"

text \<open>\<open>Quaternion.look_rotation\<close>: the basis right, up, forward as the columns of a
  matrix, converted by \<open>from_matrix\<close>.\<close>

definition look_rotation :: "vector3 \<Rightarrow> vector3 \<Rightarrow> quaternion option" where
  "look_rotation forward up =
     do {
       f \<leftarrow> normalized forward;
       right \<leftarrow> normalized (cross up f);
       let actual_up = cross f right;
       from_matrix (Matrix4
         (vx right) (vx actual_up) (vx f) 0
         (vy right) (vy actual_up) (vy f) 0
         (vz right) (vz actual_up) (vz f) 0
         0 0 0 1)
     }"

definition q_magnitude_squared :: "quaternion \<Rightarrow> real" where
  "q_magnitude_squared q = qx q * qx q + qy q * qy q + qz q * qz q + qw q * qw q"

definition q_magnitude :: "quaternion \<Rightarrow> real" where
  "q_magnitude q = sqrt (qx q * qx q + qy q * qy q + qz q * qz q + qw q * qw q)"

text \<open>The property \<open>Quaternion.inverse\<close>, with the identity below \<open>EPSILON\<close>.\<close>

definition q_inverse :: "quaternion \<Rightarrow> quaternion" where
  "q_inverse q =
     (let mag_sq = q_magnitude_squared q in
      if mag_sq < EPSILON then q_identity
      else Quaternion (- qx q / mag_sq) (- qy q / mag_sq) (- qz q / mag_sq) (qw q / mag_sq))"

text \<open>\<open>Quaternion.__mul__\<close> on a quaternion (the Hamilton product) and \<open>rotate_vector\<close>.\<close>

definition q_mul :: "quaternion \<Rightarrow> quaternion \<Rightarrow> quaternion" where
  "q_mul a b = Quaternion
     (qw a * qx b + qx a * qw b + qy a * qz b - qz a * qy b)
     (qw a * qy b - qx a * qz b + qy a * qw b + qz a * qx b)
     (qw a * qz b + qx a * qy b - qy a * qx b + qz a * qw b)
     (qw a * qw b - qx a * qx b - qy a * qy b - qz a * qz b)"

definition rotate_vector :: "quaternion \<Rightarrow> vector3 \<Rightarrow> vector3" where
  "rotate_vector q v =
     (let qv = Vector3 (qx q) (qy q) (qz q);
          uv = cross qv v;
          uuv = cross qv uv
      in v_add v (v_scale (v_add (v_scale uv (qw q)) uuv) 2))"

text \<open>The property \<open>Quaternion.forward\<close>: the rotated \<open>(0, 0, 1)\<close>.\<close>

definition q_forward :: "quaternion \<Rightarrow> vector3" where
  "q_forward q = rotate_vector q (Vector3 0 0 1)"

section \<open>Auxiliary notions for the matrix proofs\<close>

text \<open>A matrix times a scalar, and the matrix of the sixteen numerators of \<open>inverse\<close>
  (each entry of the inverse is one of them times \<open>1 / det\<close>).\<close>

definition m_scale :: "matrix4 \<Rightarrow> real \<Rightarrow> matrix4" where
  "m_scale a k = Matrix4
     (m00 a * k) (m01 a * k) (m02 a * k) (m03 a * k)
     (m10 a * k) (m11 a * k) (m12 a * k) (m13 a * k)
     (m20 a * k) (m21 a * k) (m22 a * k) (m23 a * k)
     (m30 a * k) (m31 a * k) (m32 a * k) (m33 a * k)"

definition adjugate :: "matrix4 \<Rightarrow> matrix4" where
  "adjugate m =
     (case sub_s m of (s0, s1, s2, s3, s4, s5) \<Rightarrow>
      case sub_c m of (c0, c1, c2, c3, c4, c5) \<Rightarrow>
        Matrix4
          (m11 m * c5 - m12 m * c4 + m13 m * c3)
          (- m01 m * c5 + m02 m * c4 - m03 m * c3)
          (m31 m * s5 - m32 m * s4 + m33 m * s3)
          (- m21 m * s5 + m22 m * s4 - m23 m * s3)
          (- m10 m * c5 + m12 m * c2 - m13 m * c1)
          (m00 m * c5 - m02 m * c2 + m03 m * c1)
          (- m30 m * s5 + m32 m * s2 - m33 m * s1)
          (m20 m * s5 - m22 m * s2 + m23 m * s1)
          (m10 m * c4 - m11 m * c2 + m13 m * c0)
          (- m00 m * c4 + m01 m * c2 - m03 m * c0)
          (m30 m * s4 - m31 m * s2 + m33 m * s0)
          (- m20 m * s4 + m21 m * s2 - m23 m * s0)
          (- m10 m * c3 + m11 m * c1 - m12 m * c0)
          (m00 m * c3 - m01 m * c1 + m02 m * c0)
          (- m30 m * s3 + m31 m * s1 - m32 m * s0)
          (m20 m * s3 - m21 m * s1 + m22 m * s0))"

text \<open>The product of a matrix with the column \<open>(x, y, z, 1)\<close> of a point, as its four
  coordinates, and the matrices whose last row is \<open>(0, 0, 0, 1)\<close>.\<close>

definition mat_vec :: "matrix4 \<Rightarrow> vector3 \<Rightarrow> real \<times> real \<times> real \<times> real" where
  "mat_vec m v =
     (m00 m * vx v + m01 m * vy v + m02 m * vz v + m03 m,
      m10 m * vx v + m11 m * vy v + m12 m * vz v + m13 m,
      m20 m * vx v + m21 m * vy v + m22 m * vz v + m23 m,
      m30 m * vx v + m31 m * vy v + m32 m * vz v + m33 m)"

definition affine :: "matrix4 \<Rightarrow> bool" where
  "affine m = (m30 m = 0 \<and> m31 m = 0 \<and> m32 m = 0 \<and> m33 m = 1)"
section \<open>Transform\<close>

text \<open>
  Transform objects refer to each other through \<open>_parent\<close> and \<open>_children\<close>, so they live in
  a store: an object is its address, and the store maps every address to the state of the
  object.  An address that no constructor call has returned yet holds the state the
  constructor will give it (\<open>new_transform\<close>); nothing refers to it.  The \<open>name\<close> slot is
  not read by any operation modelled here and is left out.
\<close>

type_synonym tid = nat

record transform =
  t_position :: vector3
  t_rotation :: quaternion
  t_scale :: vector3
  t_parent :: "tid option"
  t_children :: "tid list"
  t_local_matrix :: "matrix4 option"
  t_world_matrix :: "matrix4 option"
  t_local_dirty :: bool
  t_world_dirty :: bool

type_synonym store = "tid \<Rightarrow> transform"

definition new_transform :: transform where
  "new_transform = \<lparr>
     t_position = v_zero, t_rotation = q_identity, t_scale = v_one,
     t_parent = None, t_children = [],
     t_local_matrix = None, t_world_matrix = None,
     t_local_dirty = True, t_world_dirty = True \<rparr>"

definition init_store :: store where
  "init_store = (\<lambda>n. new_transform)"

text \<open>The property \<open>local_matrix\<close>: recomputed from position, rotation and scale when the
  local flag is set or nothing is cached.\<close>

definition local_matrix :: "store \<Rightarrow> tid \<Rightarrow> matrix4 \<times> store" where
  "local_matrix s n =
     (if t_local_dirty (s n) \<or> t_local_matrix (s n) = None then
        let l = trs (t_position (s n)) (t_rotation (s n)) (t_scale (s n)) in
        (l, s(n := (s n)\<lparr>t_local_matrix := Some l, t_local_dirty := False\<rparr>))
      else (the (t_local_matrix (s n)), s))"

text \<open>
  The property \<open>world_matrix\<close> calls itself on the parent.  The first argument bounds the
  depth of the recursion, as the interpreter's recursion limit does; \<open>None\<close> is the
  RecursionError.  For a root the world matrix is a copy of the local matrix, otherwise
  the parent's world matrix (read first) times the local matrix.
\<close>

fun world_matrix :: "nat \<Rightarrow> store \<Rightarrow> tid \<Rightarrow> (matrix4 \<times> store) option" where
  "world_matrix 0 s n = None"
| "world_matrix (Suc k) s n =
     (if t_world_dirty (s n) \<or> t_world_matrix (s n) = None then
        (case t_parent (s n) of
           None \<Rightarrow>
             (case local_matrix s n of (l, s1) \<Rightarrow>
                Some (l, s1(n := (s1 n)\<lparr>t_world_matrix := Some l, t_world_dirty := False\<rparr>)))
         | Some p \<Rightarrow>
             (case world_matrix k s p of
                None \<Rightarrow> None
              | Some (pw, s1) \<Rightarrow>
                  (case local_matrix s1 n of (l, s2) \<Rightarrow>
                     let w = mat_mul pw l in
                     Some (w, s2(n := (s2 n)\<lparr>t_world_matrix := Some w, t_world_dirty := False\<rparr>)))))
      else Some (the (t_world_matrix (s n)), s))"

text \<open>\<open>_mark_world_dirty\<close> sets the world flag of the node and calls itself on every child,
  in list order; the depth of the recursion is bounded as above.\<close>

fun mark_world_dirty :: "nat \<Rightarrow> store \<Rightarrow> tid \<Rightarrow> store option"
  and mark_children :: "nat \<Rightarrow> store \<Rightarrow> tid list \<Rightarrow> store option" where
  "mark_world_dirty 0 s n = None"
| "mark_world_dirty (Suc k) s n =
     mark_children k (s(n := (s n)\<lparr>t_world_dirty := True\<rparr>)) (t_children (s n))"
| "mark_children k s [] = Some s"
| "mark_children k s (c # cs) =
     (case mark_world_dirty k s c of
        None \<Rightarrow> None
      | Some s1 \<Rightarrow> mark_children k s1 cs)"

definition mark_dirty :: "nat \<Rightarrow> store \<Rightarrow> tid \<Rightarrow> store option" where
  "mark_dirty k s n = mark_world_dirty k (s(n := (s n)\<lparr>t_local_dirty := True\<rparr>)) n"

text \<open>The setters of \<open>position\<close>, \<open>rotation\<close> and \<open>scale\<close> copy the components of the
  argument into the node's own vector and call \<open>_mark_dirty\<close>.\<close>

definition set_position :: "nat \<Rightarrow> store \<Rightarrow> tid \<Rightarrow> vector3 \<Rightarrow> store option" where
  "set_position k s n v =
     mark_dirty k (s(n := (s n)\<lparr>t_position := Vector3 (vx v) (vy v) (vz v)\<rparr>)) n"

definition set_rotation :: "nat \<Rightarrow> store \<Rightarrow> tid \<Rightarrow> quaternion \<Rightarrow> store option" where
  "set_rotation k s n q =
     mark_dirty k (s(n := (s n)\<lparr>t_rotation := Quaternion (qx q) (qy q) (qz q) (qw q)\<rparr>)) n"

definition set_scale :: "nat \<Rightarrow> store \<Rightarrow> tid \<Rightarrow> vector3 \<Rightarrow> store option" where
  "set_scale k s n v =
     mark_dirty k (s(n := (s n)\<lparr>t_scale := Vector3 (vx v) (vy v) (vz v)\<rparr>)) n"

text \<open>
  The setter of \<open>parent\<close>: nothing when the parent is already the argument (transforms
  compare by identity); else the node leaves the old parent's child list
  (\<open>list.remove\<close>, a ValueError when it is not there), takes the new parent, joins the end
  of the new parent's child list, and marks its subtree.
\<close>

definition set_parent :: "nat \<Rightarrow> store \<Rightarrow> tid \<Rightarrow> tid option \<Rightarrow> store option" where
  "set_parent k s n val =
     (if t_parent (s n) = val then Some s
      else
        (case (case t_parent (s n) of
                 None \<Rightarrow> Some s
               | Some p \<Rightarrow>
                   if n \<in> set (t_children (s p))
                   then Some (s(p := (s p)\<lparr>t_children := remove1 n (t_children (s p))\<rparr>))
                   else None) of
           None \<Rightarrow> None
         | Some s1 \<Rightarrow>
             let s2 = s1(n := (s1 n)\<lparr>t_parent := val\<rparr>);
                 s3 = (case val of
                         None \<Rightarrow> s2
                       | Some q \<Rightarrow> s2(q := (s2 q)\<lparr>t_children := t_children (s2 q) @ [n]\<rparr>))
             in mark_world_dirty k s3 n))"

text \<open>The world-space accessors used to aim a camera.\<close>

definition world_position :: "nat \<Rightarrow> store \<Rightarrow> tid \<Rightarrow> (vector3 \<times> store) option" where
  "world_position k s n =
     (case world_matrix k s n of
        None \<Rightarrow> None
      | Some (w, s1) \<Rightarrow> Some (get_translation w, s1))"

definition set_world_position :: "nat \<Rightarrow> store \<Rightarrow> tid \<Rightarrow> vector3 \<Rightarrow> store option" where
  "set_world_position k s n v =
     (case t_parent (s n) of
        Some p \<Rightarrow>
          (case world_matrix k s p of
             None \<Rightarrow> None
           | Some (pw, s1) \<Rightarrow>
               (case inverse_m pw of
                  Some parent_inv \<Rightarrow> set_position k s1 n (transform_point parent_inv v)
                | None \<Rightarrow> Some s1))
      | None \<Rightarrow> set_position k s n v)"

fun world_rotation :: "nat \<Rightarrow> store \<Rightarrow> tid \<Rightarrow> quaternion option" where
  "world_rotation 0 s n = None"
| "world_rotation (Suc k) s n =
     (case t_parent (s n) of
        None \<Rightarrow> Some (t_rotation (s n))
      | Some p \<Rightarrow>
          (case world_rotation k s p of
             None \<Rightarrow> None
           | Some pr \<Rightarrow> Some (q_mul pr (t_rotation (s n)))))"

definition set_world_rotation :: "nat \<Rightarrow> store \<Rightarrow> tid \<Rightarrow> quaternion \<Rightarrow> store option" where
  "set_world_rotation k s n q =
     (case t_parent (s n) of
        Some p \<Rightarrow>
          (case world_rotation k s p of
             None \<Rightarrow> None
           | Some pr \<Rightarrow> set_rotation k s n (q_mul (q_inverse pr) q))
      | None \<Rightarrow> set_rotation k s n q)"

text \<open>\<open>Transform.look_at\<close>: no change when the target is at the node's world position,
  else the world rotation becomes \<open>look_rotation\<close> of the direction to the target.\<close>

definition look_at :: "nat \<Rightarrow> store \<Rightarrow> tid \<Rightarrow> vector3 \<Rightarrow> vector3 \<Rightarrow> store option" where
  "look_at k s n target up =
     (case world_position k s n of
        None \<Rightarrow> None
      | Some (wp, s1) \<Rightarrow>
          let direction = v_sub target wp in
          if magnitude_squared direction < EPSILON then Some s1
          else
            (case look_rotation direction up of
               None \<Rightarrow> None
             | Some q \<Rightarrow> set_world_rotation k s1 n q))"

section \<open>Transform: the state a tree of transforms is in\<close>

text \<open>
  The notions the proofs about the caches use.  A cache is clean when its flag is clear
  and a matrix is stored.  \<open>links_ok\<close>: a node is in the child list of exactly its parent,
  once.  \<open>ranked\<close>: a bounded depth grows from every parent to its child, so the hierarchy
  has no cycle and no endless chain.  \<open>caches_ok\<close>: a clean local matrix is the TRS matrix
  of the node's position, rotation and scale; a clean world matrix of a root is that
  matrix too, and a clean world matrix of a child has a clean parent and is the parent's
  world matrix times the node's TRS matrix.
\<close>

definition local_trs :: "store \<Rightarrow> tid \<Rightarrow> matrix4" where
  "local_trs s n = trs (t_position (s n)) (t_rotation (s n)) (t_scale (s n))"

definition local_clean :: "store \<Rightarrow> tid \<Rightarrow> bool" where
  "local_clean s n = (\<not> t_local_dirty (s n) \<and> t_local_matrix (s n) \<noteq> None)"

definition world_clean :: "store \<Rightarrow> tid \<Rightarrow> bool" where
  "world_clean s n = (\<not> t_world_dirty (s n) \<and> t_world_matrix (s n) \<noteq> None)"

definition links_ok :: "store \<Rightarrow> bool" where
  "links_ok s =
     ((\<forall>n p. (t_parent (s n) = Some p) = (n \<in> set (t_children (s p))))
      \<and> (\<forall>p. distinct (t_children (s p))))"

definition ranked :: "store \<Rightarrow> (tid \<Rightarrow> nat) \<Rightarrow> nat \<Rightarrow> bool" where
  "ranked s d bound =
     ((\<forall>n. d n \<le> bound) \<and> (\<forall>n p. t_parent (s n) = Some p \<longrightarrow> d p < d n))"

definition caches_ok :: "store \<Rightarrow> bool" where
  "caches_ok s =
     (\<forall>n. (local_clean s n \<longrightarrow> t_local_matrix (s n) = Some (local_trs s n))
        \<and> (world_clean s n \<longrightarrow>
             (case t_parent (s n) of
                None \<Rightarrow> t_world_matrix (s n) = Some (local_trs s n)
              | Some p \<Rightarrow>
                  world_clean s p
                  \<and> t_world_matrix (s n)
                    = Some (mat_mul (the (t_world_matrix (s p))) (local_trs s n)))))"

definition tree_inv :: "store \<Rightarrow> (tid \<Rightarrow> nat) \<Rightarrow> nat \<Rightarrow> bool" where
  "tree_inv s d bound = (links_ok s \<and> ranked s d bound \<and> caches_ok s)"

text \<open>The stores a program can reach: from the store in which every transform is new, by
  assignments to \<open>position\<close>, \<open>rotation\<close>, \<open>scale\<close> and \<open>parent\<close> that return, and by reads of
  \<open>local_matrix\<close> and \<open>world_matrix\<close> (which fill the caches).\<close>

inductive reachable :: "store \<Rightarrow> bool" where
  start: "reachable init_store"
| assign_position: "reachable s \<Longrightarrow> set_position k s n v = Some s' \<Longrightarrow> reachable s'"
| assign_rotation: "reachable s \<Longrightarrow> set_rotation k s n q = Some s' \<Longrightarrow> reachable s'"
| assign_scale: "reachable s \<Longrightarrow> set_scale k s n v = Some s' \<Longrightarrow> reachable s'"
| assign_parent: "reachable s \<Longrightarrow> set_parent k s n val = Some s' \<Longrightarrow> reachable s'"
| read_local: "reachable s \<Longrightarrow> local_matrix s n = (m, s') \<Longrightarrow> reachable s'"
| read_world: "reachable s \<Longrightarrow> world_matrix k s n = Some (m, s') \<Longrightarrow> reachable s'"

text \<open>What \<open>_mark_world_dirty\<close> may change between two stores: world flags only, from clear
  to set only, and a node whose flag it sets has all its children set afterwards.\<close>

definition marks :: "store \<Rightarrow> store \<Rightarrow> bool" where
  "marks s s' =
     (\<forall>m. s' m = (s m)\<lparr>t_world_dirty := t_world_dirty (s' m)\<rparr>
        \<and> (t_world_dirty (s m) \<longrightarrow> t_world_dirty (s' m))
        \<and> (t_world_dirty (s' m) \<and> \<not> t_world_dirty (s m) \<longrightarrow>
             (\<forall>c \<in> set (t_children (s m)). t_world_dirty (s' c))))"

text \<open>What a read of a matrix may change: the caches and their flags, nothing else.\<close>

definition same_shape :: "store \<Rightarrow> store \<Rightarrow> bool" where
  "same_shape s s' =
     (\<forall>m. t_parent (s' m) = t_parent (s m) \<and> t_children (s' m) = t_children (s m)
        \<and> t_position (s' m) = t_position (s m) \<and> t_rotation (s' m) = t_rotation (s m)
        \<and> t_scale (s' m) = t_scale (s m))"

definition child_rel :: "store \<Rightarrow> (tid \<times> tid) set" where
  "child_rel s = {(p, c). c \<in> set (t_children (s p))}"

text \<open>The store between the pointer updates of the \<open>parent\<close> setter and its call of
  \<open>_mark_world_dirty\<close>.\<close>

definition relink :: "store \<Rightarrow> tid \<Rightarrow> tid option \<Rightarrow> store" where
  "relink s n val =
     (let s1 = (case t_parent (s n) of
                  None \<Rightarrow> s
                | Some p \<Rightarrow> s(p := (s p)\<lparr>t_children := remove1 n (t_children (s p))\<rparr>));
          s2 = s1(n := (s1 n)\<lparr>t_parent := val\<rparr>)
      in case val of
           None \<Rightarrow> s2
         | Some q \<Rightarrow> s2(q := (s2 q)\<lparr>t_children := t_children (s2 q) @ [n]\<rparr>))"

section \<open>Camera\<close>

text \<open>A camera owns one transform (an address of the store) and the projection
  parameters with the cached projection matrix.  The slots that no operation reads
  (\<open>_view_matrix_cache\<close>, \<open>_view_dirty\<close>, \<open>clear_color\<close>, \<open>depth\<close>) are left out.\<close>

record camera =
  c_transform :: tid
  c_fov :: real
  c_aspect :: real
  c_near :: real
  c_far :: real
  c_ortho_size :: real
  c_is_orthographic :: bool
  c_projection_matrix :: "matrix4 option"
  c_projection_dirty :: bool

definition new_camera :: "tid \<Rightarrow> camera" where
  "new_camera t = \<lparr>
     c_transform = t,
     c_fov = 60 * DEG_TO_RAD, c_aspect = 16 / 9, c_near = 0.1, c_far = 1000,
     c_ortho_size = 5, c_is_orthographic = False,
     c_projection_matrix = None, c_projection_dirty = True \<rparr>"

definition set_fov :: "camera \<Rightarrow> real \<Rightarrow> camera" where
  "set_fov c val = c\<lparr>c_fov := clamp val 0.01 (PI - 0.01), c_projection_dirty := True\<rparr>"

definition set_fov_degrees :: "camera \<Rightarrow> real \<Rightarrow> camera" where
  "set_fov_degrees c val = set_fov c (val * DEG_TO_RAD)"

definition set_aspect :: "camera \<Rightarrow> real \<Rightarrow> camera" where
  "set_aspect c val = c\<lparr>c_aspect := max 0.01 val, c_projection_dirty := True\<rparr>"

definition set_near_clip :: "camera \<Rightarrow> real \<Rightarrow> camera" where
  "set_near_clip c val = c\<lparr>c_near := max 0.001 val, c_projection_dirty := True\<rparr>"

definition set_far_clip :: "camera \<Rightarrow> real \<Rightarrow> camera" where
  "set_far_clip c val = c\<lparr>c_far := max (c_near c + 0.01) val, c_projection_dirty := True\<rparr>"

definition set_orthographic_size :: "camera \<Rightarrow> real \<Rightarrow> camera" where
  "set_orthographic_size c val = c\<lparr>c_ortho_size := max 0.01 val, c_projection_dirty := True\<rparr>"

definition set_is_orthographic :: "camera \<Rightarrow> bool \<Rightarrow> camera" where
  "set_is_orthographic c val = c\<lparr>c_is_orthographic := val, c_projection_dirty := True\<rparr>"

text \<open>The property \<open>projection_matrix\<close>: rebuilt when the flag is set or nothing is cached;
  \<open>None\<close> is the ZeroDivisionError of the matrix constructor.\<close>

definition projection_matrix :: "camera \<Rightarrow> (matrix4 \<times> camera) option" where
  "projection_matrix c =
     (if c_projection_dirty c \<or> c_projection_matrix c = None then
        (case (if c_is_orthographic c then
                 let half_height = c_ortho_size c;
                     half_width = half_height * c_aspect c
                 in orthographic (- half_width) half_width (- half_height) half_height
                      (c_near c) (c_far c)
               else perspective (c_fov c) (c_aspect c) (c_near c) (c_far c)) of
           None \<Rightarrow> None
         | Some p \<Rightarrow> Some (p, c\<lparr>c_projection_matrix := Some p, c_projection_dirty := False\<rparr>))
      else Some (the (c_projection_matrix c), c))"

text \<open>The property \<open>view_matrix\<close>: the inverse of the world matrix of the camera's
  transform, or the identity when there is no inverse.\<close>

definition view_matrix :: "nat \<Rightarrow> store \<Rightarrow> camera \<Rightarrow> (matrix4 \<times> store) option" where
  "view_matrix k s c =
     (case world_matrix k s (c_transform c) of
        None \<Rightarrow> None
      | Some (w, s1) \<Rightarrow>
          Some ((case inverse_m w of Some i \<Rightarrow> i | None \<Rightarrow> m_identity), s1))"

text \<open>\<open>Camera.world_to_screen\<close>.  The inner option is the method's own result (\<open>None\<close> for a
  point that is not in front of the camera); the outer one is an exception of a matrix
  read.  The projection matrix is read only past the rejection test.\<close>

definition world_to_screen ::
  "nat \<Rightarrow> store \<Rightarrow> camera \<Rightarrow> vector3 \<Rightarrow> real \<Rightarrow> real
     \<Rightarrow> ((real \<times> real \<times> real) option \<times> store \<times> camera) option" where
  "world_to_screen k s c world_pos screen_width screen_height =
     (case view_matrix k s c of
        None \<Rightarrow> None
      | Some (v, s1) \<Rightarrow>
          let view_pos = transform_point v world_pos in
          if vz view_pos \<ge> 0 then Some (None, s1, c)
          else
            (case projection_matrix c of
               None \<Rightarrow> None
             | Some (p, c1) \<Rightarrow>
                 let clip_pos = transform_point p view_pos;
                     ndc_x = vx clip_pos;
                     ndc_y = vy clip_pos;
                     screen_x = (ndc_x + 1) * 0.5 * screen_width;
                     screen_y = (1 - ndc_y) * 0.5 * screen_height
                 in Some (Some (screen_x, screen_y, - vz view_pos), s1, c1)))"

text \<open>\<open>Camera.set_look_at\<close>: the world position of the camera's transform becomes \<open>eye\<close>,
  then the transform looks at \<open>target\<close>.  \<open>Camera.forward\<close> is the world rotation applied
  to \<open>(0, 0, 1)\<close>.\<close>

definition set_look_at :: "nat \<Rightarrow> store \<Rightarrow> camera \<Rightarrow> vector3 \<Rightarrow> vector3 \<Rightarrow> vector3 \<Rightarrow> store option" where
  "set_look_at k s c eye target up =
     (case set_world_position k s (c_transform c) eye of
        None \<Rightarrow> None
      | Some s1 \<Rightarrow> look_at k s1 (c_transform c) target up)"

definition camera_forward :: "nat \<Rightarrow> store \<Rightarrow> camera \<Rightarrow> vector3 option" where
  "camera_forward k s c =
     (case world_rotation k s (c_transform c) of
        None \<Rightarrow> None
      | Some q \<Rightarrow> Some (q_forward q))"

text \<open>Assignments to the three clamped projection parameters, and a run of them.\<close>

datatype cam_assign = AssignFov real | AssignAspect real | AssignNearClip real

fun assign :: "camera \<Rightarrow> cam_assign \<Rightarrow> camera" where
  "assign c (AssignFov v) = set_fov c v"
| "assign c (AssignAspect v) = set_aspect c v"
| "assign c (AssignNearClip v) = set_near_clip c v"

definition camera_params_ok :: "camera \<Rightarrow> bool" where
  "camera_params_ok c =
     (0.01 \<le> c_fov c \<and> c_fov c \<le> PI - 0.01 \<and> 0.01 \<le> c_aspect c \<and> 0.001 \<le> c_near c)"

text \<open>The camera of the projection scenarios: a new camera (on the transform at
  address 0) with field of view 60 degrees, aspect 1, near plane 0.1 and far plane 100.\<close>

definition scenario_camera :: camera where
  "scenario_camera =
     set_far_clip (set_near_clip (set_aspect (set_fov_degrees (new_camera 0) 60) 1) 0.1) 100"

text \<open>The store after \<open>set_look_at\<close> with eye \<open>(0, 0, 5)\<close>, target \<open>(0, 0, 0)\<close> and up
  \<open>(0, 1, 0)\<close> on the scenario camera in the initial store: the camera's transform has the
  position, the rotation \<open>look_rotation\<close> computed (half a turn about the y axis), and the
  matrices cached while the position was read, both flagged dirty again.\<close>

definition aimed_store :: store where
  "aimed_store = init_store(0 := new_transform\<lparr>
     t_position := Vector3 0 0 5,
     t_rotation := Quaternion 0 1 0 0,
     t_local_matrix := Some (Matrix4 1 0 0 0  0 1 0 0  0 0 1 5  0 0 0 1),
     t_world_matrix := Some (Matrix4 1 0 0 0  0 1 0 0  0 0 1 5  0 0 0 1) \<rparr>)"

text \<open>The same store after one more read of \<open>world_matrix\<close> on the camera's transform: the
  matrices of the turned transform are cached and the flags are clear.\<close>

definition viewed_store :: store where
  "viewed_store = init_store(0 := new_transform\<lparr>
     t_position := Vector3 0 0 5,
     t_rotation := Quaternion 0 1 0 0,
     t_local_matrix := Some (Matrix4 (- 1) 0 0 0  0 1 0 0  0 0 (- 1) 5  0 0 0 1),
     t_world_matrix := Some (Matrix4 (- 1) 0 0 0  0 1 0 0  0 0 (- 1) 5  0 0 0 1),
     t_local_dirty := False, t_world_dirty := False \<rparr>)"


text \<open>A camera shrunk to a point: the store after \<open>position = (0, 0, 5)\<close> and
  \<open>scale = (1/4096, 1/4096, 1/4096)\<close> on the camera's transform in the initial store, the
  world matrix of that transform (its determinant is \<open>2 ^ -36\<close>, below \<open>EPSILON\<close>), and the
  inverse of that matrix.\<close>

definition placed_store :: store where
  "placed_store = init_store(0 := new_transform\<lparr>t_position := Vector3 0 0 5\<rparr>)"

definition shrunk_store :: store where
  "shrunk_store = init_store(0 := new_transform\<lparr>
     t_position := Vector3 0 0 5,
     t_scale := Vector3 (1 / 4096) (1 / 4096) (1 / 4096) \<rparr>)"

definition shrunk_world :: matrix4 where
  "shrunk_world = Matrix4 (1 / 4096) 0 0 0  0 (1 / 4096) 0 0  0 0 (1 / 4096) 5  0 0 0 1"

definition shrunk_inverse :: matrix4 where
  "shrunk_inverse = Matrix4 4096 0 0 0  0 4096 0 0  0 0 4096 (- 20480)  0 0 0 1"

text \<open>A camera whose clip planes coincide: \<open>far_clip = 100\<close>, then \<open>near_clip = 100\<close> (the
  setter of \<open>near_clip\<close> does not look at the far plane).\<close>

definition equal_clips_camera :: camera where
  "equal_clips_camera = set_near_clip (set_far_clip (new_camera 0) 100) 100"
section \<open>WireframeRenderer\<close>

text \<open>
  A cell of the character grid holds a one-character Python string, modelled by the bytes
  of its UTF-8 encoding; a cell of the depth grid holds a float, \<open>float('inf')\<close> after
  \<open>clear\<close>; a cell of the colour grid holds an optional RGB triple.
\<close>

type_synonym glyph = string

type_synonym color = "int \<times> int \<times> int"

datatype zdepth = Finite real | Infinity

fun depth_lt :: "real \<Rightarrow> zdepth \<Rightarrow> bool" where
  "depth_lt d Infinity = True"
| "depth_lt d (Finite e) = (d < e)"

fun depth_le :: "real \<Rightarrow> zdepth \<Rightarrow> bool" where
  "depth_le d Infinity = True"
| "depth_le d (Finite e) = (d \<le> e)"

text \<open>The renderer's slots, without those that the drawing primitives below never read
  (\<open>_render_mode\<close>, \<open>_backface_culling\<close>, \<open>_point_char\<close>, the light).  \<open>_edge_chars\<close> is a copy
  of the class constant \<open>EDGE_CHARS\<close> that nothing changes; its four entries in use are the
  constants below.\<close>

record renderer =
  r_width :: int
  r_height :: int
  r_char_buffer :: "glyph list list"
  r_depth_buffer :: "zdepth list list"
  r_color_buffer :: "color option list list"
  r_camera :: "camera option"
  r_depth_testing :: bool

definition edge_horizontal :: glyph where
  "edge_horizontal = [CHR 0xE2, CHR 0x94, CHR 0x80]"

definition edge_vertical :: glyph where
  "edge_vertical = [CHR 0xE2, CHR 0x94, CHR 0x82]"

definition edge_diagonal_up :: glyph where
  "edge_diagonal_up = [CHR 0xE2, CHR 0x95, CHR 0xB1]"

definition edge_diagonal_down :: glyph where
  "edge_diagonal_down = [CHR 0xE2, CHR 0x95, CHR 0xB2]"

text \<open>Reading and writing \<open>buf[y][x]\<close>.  Every call below comes after a test that \<open>x\<close> and
  \<open>y\<close> are not negative; an index past the end of a list is the IndexError.\<close>

definition get_cell :: "'a list list \<Rightarrow> int \<Rightarrow> int \<Rightarrow> 'a option" where
  "get_cell buf y x =
     (if 0 \<le> y \<and> nat y < length buf \<and> 0 \<le> x \<and> nat x < length (buf ! nat y)
      then Some (buf ! nat y ! nat x) else None)"

definition put_cell :: "'a list list \<Rightarrow> int \<Rightarrow> int \<Rightarrow> 'a \<Rightarrow> 'a list list option" where
  "put_cell buf y x v =
     (if 0 \<le> y \<and> nat y < length buf \<and> 0 \<le> x \<and> nat x < length (buf ! nat y)
      then Some (buf[nat y := (buf ! nat y)[nat x := v]]) else None)"

definition clear :: "renderer \<Rightarrow> glyph \<Rightarrow> color option \<Rightarrow> renderer" where
  "clear r char color = r\<lparr>
     r_char_buffer := replicate (nat (r_height r)) (replicate (nat (r_width r)) char),
     r_depth_buffer := replicate (nat (r_height r)) (replicate (nat (r_width r)) Infinity),
     r_color_buffer := replicate (nat (r_height r)) (replicate (nat (r_width r)) color) \<rparr>"

definition new_renderer :: "int \<Rightarrow> int \<Rightarrow> renderer" where
  "new_renderer width height =
     clear \<lparr> r_width = width, r_height = height,
             r_char_buffer = [], r_depth_buffer = [], r_color_buffer = [],
             r_camera = None, r_depth_testing = True \<rparr> '' '' None"

definition resize :: "renderer \<Rightarrow> int \<Rightarrow> int \<Rightarrow> renderer" where
  "resize r width height = clear (r\<lparr>r_width := width, r_height := height\<rparr>) '' '' None"

text \<open>\<open>set_camera\<close> keeps the camera and assigns \<open>width / (height * 2.0)\<close> to its \<open>aspect\<close>
  property; a height of 0 is the ZeroDivisionError.\<close>

definition set_camera :: "renderer \<Rightarrow> camera \<Rightarrow> renderer option" where
  "set_camera r cam =
     (case py_div (of_int (r_width r)) (of_int (r_height r) * 2) of
        None \<Rightarrow> None
      | Some a \<Rightarrow> Some (r\<lparr>r_camera := Some (set_aspect cam a)\<rparr>))"

definition in_bounds :: "renderer \<Rightarrow> int \<Rightarrow> int \<Rightarrow> bool" where
  "in_bounds r x y = (0 \<le> x \<and> x < r_width r \<and> 0 \<le> y \<and> y < r_height r)"

definition get_edge_char :: "int \<Rightarrow> int \<Rightarrow> int \<Rightarrow> int \<Rightarrow> int \<Rightarrow> int \<Rightarrow> glyph" where
  "get_edge_char x0 y0 x1 y1 dx dy =
     (if dx = 0 then edge_vertical
      else if dy = 0 then edge_horizontal
      else
        let slope = (of_int dy :: real) / of_int dx in
        if slope < 0.5 then edge_horizontal
        else if slope < 2 then
          (if (x1 > x0 \<and> y1 < y0) \<or> (x1 < x0 \<and> y1 > y0) then edge_diagonal_up
           else edge_diagonal_down)
        else edge_vertical)"

text \<open>\<open>set_char\<close>: inside the grid, and when depth testing is off or the depth argument is
  at most the stored depth, the three cells are written.\<close>

definition set_char ::
  "renderer \<Rightarrow> int \<Rightarrow> int \<Rightarrow> glyph \<Rightarrow> color option \<Rightarrow> real \<Rightarrow> renderer option" where
  "set_char r x y char color depth =
     (if in_bounds r x y then
        (case (if \<not> r_depth_testing r then Some True
               else map_option (depth_le depth) (get_cell (r_depth_buffer r) y x)) of
           None \<Rightarrow> None
         | Some False \<Rightarrow> Some r
         | Some True \<Rightarrow>
             do {
               cb \<leftarrow> put_cell (r_char_buffer r) y x char;
               lb \<leftarrow> put_cell (r_color_buffer r) y x color;
               db \<leftarrow> put_cell (r_depth_buffer r) y x (Finite depth);
               Some (r\<lparr>r_char_buffer := cb, r_color_buffer := lb, r_depth_buffer := db\<rparr>)
             })
      else Some r)"

text \<open>\<open>draw_text\<close>: character \<open>i\<close> of the text goes to column \<open>x + i\<close> of row \<open>y\<close> when that
  cell is inside the grid.\<close>

definition plot_overlay :: "renderer \<Rightarrow> int \<Rightarrow> int \<Rightarrow> glyph \<Rightarrow> color option \<Rightarrow> renderer option" where
  "plot_overlay r x y char color =
     (if in_bounds r x y then
        do {
          cb \<leftarrow> put_cell (r_char_buffer r) y x char;
          lb \<leftarrow> put_cell (r_color_buffer r) y x color;
          Some (r\<lparr>r_char_buffer := cb, r_color_buffer := lb\<rparr>)
        }
      else Some r)"

fun draw_text_from :: "renderer \<Rightarrow> int \<Rightarrow> int \<Rightarrow> color option \<Rightarrow> int \<Rightarrow> glyph list \<Rightarrow> renderer option" where
  "draw_text_from r x y color i [] = Some r"
| "draw_text_from r x y color i (char # rest) =
     (case plot_overlay r (x + i) y char color of
        None \<Rightarrow> None
      | Some r1 \<Rightarrow> draw_text_from r1 x y color (i + 1) rest)"

definition draw_text :: "renderer \<Rightarrow> int \<Rightarrow> int \<Rightarrow> glyph list \<Rightarrow> color option \<Rightarrow> renderer option" where
  "draw_text r x y text color = draw_text_from r x y color 0 text"

text \<open>The values that stay fixed while a line is stepped: the end point, the absolute
  differences and the step signs.\<close>

record stepper =
  b_x1 :: int
  b_y1 :: int
  b_dx :: int
  b_dy :: int
  b_sx :: int
  b_sy :: int

definition make_stepper :: "int \<Rightarrow> int \<Rightarrow> int \<Rightarrow> int \<Rightarrow> stepper" where
  "make_stepper x0 y0 x1 y1 = \<lparr>
     b_x1 = x1, b_y1 = y1,
     b_dx = \<bar>x1 - x0\<bar>, b_dy = \<bar>y1 - y0\<bar>,
     b_sx = (if x0 < x1 then 1 else - 1),
     b_sy = (if y0 < y1 then 1 else - 1) \<rparr>"

text \<open>One pass through the tail of the loop body: \<open>e2\<close> is computed once, then \<open>x0\<close> moves when
  \<open>e2 > -dy\<close> and \<open>y0\<close> moves when \<open>e2 < dx\<close>.\<close>

definition step_x :: "stepper \<Rightarrow> int \<Rightarrow> int \<Rightarrow> int" where
  "step_x b x0 err = (if 2 * err > - b_dy b then x0 + b_sx b else x0)"

definition step_y :: "stepper \<Rightarrow> int \<Rightarrow> int \<Rightarrow> int" where
  "step_y b y0 err = (if 2 * err < b_dx b then y0 + b_sy b else y0)"

definition step_err :: "stepper \<Rightarrow> int \<Rightarrow> int" where
  "step_err b err =
     (let err1 = (if 2 * err > - b_dy b then err - b_dy b else err)
      in if 2 * err < b_dx b then err1 + b_dx b else err1)"

text \<open>\<open>draw_line\<close>: the loop \<open>while True\<close> writes the character and the colour of the
  current cell when it is inside the grid, stops at the end point, and steps otherwise.
  A loop that does not stop has the value \<open>None\<close>, as an IndexError has.\<close>

definition line_char :: "stepper \<Rightarrow> glyph option \<Rightarrow> int \<Rightarrow> int \<Rightarrow> glyph" where
  "line_char b char x0 y0 =
     (case char of
        Some c \<Rightarrow> if c \<noteq> [] then c else get_edge_char x0 y0 (b_x1 b) (b_y1 b) (b_dx b) (b_dy b)
      | None \<Rightarrow> get_edge_char x0 y0 (b_x1 b) (b_y1 b) (b_dx b) (b_dy b))"

partial_function (option) draw_line_loop ::
  "stepper \<Rightarrow> color option \<Rightarrow> glyph option \<Rightarrow> renderer \<Rightarrow> int \<Rightarrow> int \<Rightarrow> int \<Rightarrow> renderer option" where
  "draw_line_loop b color char r x0 y0 err =
     (case plot_overlay r x0 y0 (line_char b char x0 y0) color of
        None \<Rightarrow> None
      | Some r1 \<Rightarrow>
          if x0 = b_x1 b \<and> y0 = b_y1 b then Some r1
          else draw_line_loop b color char r1 (step_x b x0 err) (step_y b y0 err) (step_err b err))"

definition draw_line ::
  "renderer \<Rightarrow> int \<Rightarrow> int \<Rightarrow> int \<Rightarrow> int \<Rightarrow> color option \<Rightarrow> glyph option \<Rightarrow> renderer option" where
  "draw_line r x0 y0 x1 y1 color char =
     (let b = make_stepper x0 y0 x1 y1
      in draw_line_loop b color char r x0 y0 (b_dx b - b_dy b))"

text \<open>The cells a line passes through, in order: the positions of the same loop.\<close>

partial_function (option) line_cells ::
  "stepper \<Rightarrow> int \<Rightarrow> int \<Rightarrow> int \<Rightarrow> (int \<times> int) list option" where
  "line_cells b x0 y0 err =
     (if x0 = b_x1 b \<and> y0 = b_y1 b then Some [(x0, y0)]
      else
        do {
          rest \<leftarrow> line_cells b (step_x b x0 err) (step_y b y0 err) (step_err b err);
          Some ((x0, y0) # rest)
        })"

text \<open>Projected vertices and edges, and \<open>_draw_edge\<close>.  \<open>int()\<close> rounds towards zero.  The
  loop runs while \<open>step < max_steps\<close>; inside the grid, the depth interpolated at
  \<open>step / max_steps\<close> is compared with the stored depth, and the three cells are written
  when depth testing is off or the new depth is less.\<close>

record projected_vertex =
  pv_screen_x :: real
  pv_screen_y :: real
  pv_depth :: real
  pv_original_idx :: int
  pv_visible :: bool

record projected_edge =
  pe_v1 :: projected_vertex
  pe_v2 :: projected_vertex
  pe_color :: color
  pe_depth :: real
  pe_thickness :: real
  pe_style :: string

definition py_int :: "real \<Rightarrow> int" where
  "py_int a = (if 0 \<le> a then \<lfloor>a\<rfloor> else \<lceil>a\<rceil>)"

definition edge_depth_at :: "projected_edge \<Rightarrow> int \<Rightarrow> int \<Rightarrow> real" where
  "edge_depth_at e max_steps step =
     (let t = (if max_steps > 0 then of_int step / of_int max_steps else 0)
      in lerp (pv_depth (pe_v1 e)) (pv_depth (pe_v2 e)) t)"

definition plot_edge ::
  "stepper \<Rightarrow> projected_edge \<Rightarrow> int \<Rightarrow> renderer \<Rightarrow> int \<Rightarrow> int \<Rightarrow> int \<Rightarrow> renderer option" where
  "plot_edge b e max_steps r step x0 y0 =
     (if in_bounds r x0 y0 then
        let depth = edge_depth_at e max_steps step in
        (case (if \<not> r_depth_testing r then Some True
               else map_option (depth_lt depth) (get_cell (r_depth_buffer r) y0 x0)) of
           None \<Rightarrow> None
         | Some False \<Rightarrow> Some r
         | Some True \<Rightarrow>
             do {
               cb \<leftarrow> put_cell (r_char_buffer r) y0 x0
                      (get_edge_char x0 y0 (b_x1 b) (b_y1 b) (b_dx b) (b_dy b));
               db \<leftarrow> put_cell (r_depth_buffer r) y0 x0 (Finite depth);
               lb \<leftarrow> put_cell (r_color_buffer r) y0 x0 (Some (pe_color e));
               Some (r\<lparr>r_char_buffer := cb, r_depth_buffer := db, r_color_buffer := lb\<rparr>)
             })
      else Some r)"

function draw_edge_loop ::
  "stepper \<Rightarrow> projected_edge \<Rightarrow> int \<Rightarrow> renderer \<Rightarrow> int \<Rightarrow> int \<Rightarrow> int \<Rightarrow> int \<Rightarrow> renderer option" where
  "draw_edge_loop b e max_steps r step x0 y0 err =
     (if step < max_steps then
        (case plot_edge b e max_steps r step x0 y0 of
           None \<Rightarrow> None
         | Some r1 \<Rightarrow>
             if x0 = b_x1 b \<and> y0 = b_y1 b then Some r1
             else draw_edge_loop b e max_steps r1 (step + 1)
                    (step_x b x0 err) (step_y b y0 err) (step_err b err))
      else Some r)"
  by pat_completeness auto
termination
  by (relation "measure (\<lambda>(b, e, max_steps, r, step, x0, y0, err). nat (max_steps - step))") auto

definition draw_edge :: "renderer \<Rightarrow> projected_edge \<Rightarrow> renderer option" where
  "draw_edge r e =
     (let x0 = py_int (pv_screen_x (pe_v1 e)); y0 = py_int (pv_screen_y (pe_v1 e));
          x1 = py_int (pv_screen_x (pe_v2 e)); y1 = py_int (pv_screen_y (pe_v2 e));
          b = make_stepper x0 y0 x1 y1;
          max_steps = max (b_dx b) (b_dy b) + 1
      in draw_edge_loop b e max_steps r 0 x0 y0 (b_dx b - b_dy b))"

text \<open>The cells an edge passes through with the depth it has there: the positions and
  interpolated depths of the same loop.\<close>

function edge_cells_from ::
  "stepper \<Rightarrow> projected_edge \<Rightarrow> int \<Rightarrow> int \<Rightarrow> int \<Rightarrow> int \<Rightarrow> int \<Rightarrow> (int \<times> int \<times> real) list" where
  "edge_cells_from b e max_steps step x0 y0 err =
     (if step < max_steps then
        (x0, y0, edge_depth_at e max_steps step) #
          (if x0 = b_x1 b \<and> y0 = b_y1 b then []
           else edge_cells_from b e max_steps (step + 1)
                  (step_x b x0 err) (step_y b y0 err) (step_err b err))
      else [])"
  by pat_completeness auto
termination
  by (relation "measure (\<lambda>(b, e, max_steps, step, x0, y0, err). nat (max_steps - step))") auto

definition edge_cells :: "projected_edge \<Rightarrow> (int \<times> int \<times> real) list" where
  "edge_cells e =
     (let x0 = py_int (pv_screen_x (pe_v1 e)); y0 = py_int (pv_screen_y (pe_v1 e));
          x1 = py_int (pv_screen_x (pe_v2 e)); y1 = py_int (pv_screen_y (pe_v2 e));
          b = make_stepper x0 y0 x1 y1;
          max_steps = max (b_dx b) (b_dy b) + 1
      in edge_cells_from b e max_steps 0 x0 y0 (b_dx b - b_dy b))"

text \<open>The shape that \<open>clear\<close> gives the three grids: \<open>height\<close> rows of \<open>width\<close> cells.\<close>

definition grid_shaped :: "int \<Rightarrow> int \<Rightarrow> 'a list list \<Rightarrow> bool" where
  "grid_shaped w h buf = (length buf = nat h \<and> list_all (\<lambda>row. length row = nat w) buf)"

definition well_shaped :: "renderer \<Rightarrow> bool" where
  "well_shaped r =
     (grid_shaped (r_width r) (r_height r) (r_char_buffer r)
      \<and> grid_shaped (r_width r) (r_height r) (r_depth_buffer r)
      \<and> grid_shaped (r_width r) (r_height r) (r_color_buffer r))"

text \<open>What a drawing call leaves alone: the size, the depth-testing flag, the camera and
  the shape of the grids.\<close>

definition same_frame :: "renderer \<Rightarrow> renderer \<Rightarrow> bool" where
  "same_frame r r' =
     (well_shaped r' \<and> r_width r' = r_width r \<and> r_height r' = r_height r
      \<and> r_depth_testing r' = r_depth_testing r \<and> r_camera r' = r_camera r)"

text \<open>For the proofs about stepping: the fixed values of a line are as \<open>make_stepper\<close>
  builds them, and a loop state lies on the line when \<open>rx\<close> steps in x and \<open>ry\<close> steps in
  y remain to the end point and the error term has the value these give it.\<close>

definition stepper_ok :: "stepper \<Rightarrow> bool" where
  "stepper_ok b =
     (0 \<le> b_dx b \<and> 0 \<le> b_dy b \<and> (b_sx b = 1 \<or> b_sx b = - 1) \<and> (b_sy b = 1 \<or> b_sy b = - 1))"

definition on_line :: "stepper \<Rightarrow> int \<Rightarrow> int \<Rightarrow> int \<Rightarrow> int \<Rightarrow> int \<Rightarrow> bool" where
  "on_line b x y err rx ry =
     (b_x1 b - x = rx * b_sx b \<and> b_y1 b - y = ry * b_sy b
      \<and> 0 \<le> rx \<and> rx \<le> b_dx b \<and> 0 \<le> ry \<and> ry \<le> b_dy b
      \<and> err = b_dx b - b_dy b + rx * b_dy b - ry * b_dx b)"

text \<open>For the proofs about the depth test: the stored depth and colour of a cell, the
  depth-tested write of \<open>_draw_edge\<close> on such a pair, and the depths a list of stepped
  cells has at one position.\<close>

definition pix :: "renderer \<Rightarrow> int \<Rightarrow> int \<Rightarrow> zdepth option \<times> color option option" where
  "pix r x y = (get_cell (r_depth_buffer r) y x, get_cell (r_color_buffer r) y x)"

definition zwrite ::
  "color \<Rightarrow> zdepth option \<times> color option option \<Rightarrow> real \<Rightarrow> zdepth option \<times> color option option" where
  "zwrite c cell d =
     (case fst cell of
        Some stored \<Rightarrow> if depth_lt d stored then (Some (Finite d), Some (Some c)) else cell
      | None \<Rightarrow> cell)"

definition depths_at :: "(int \<times> int \<times> real) list \<Rightarrow> int \<Rightarrow> int \<Rightarrow> real list" where
  "depths_at cells x y = map (\<lambda>(cx, cy, d). d) (filter (\<lambda>(cx, cy, d). cx = x \<and> cy = y) cells)"

section \<open>Numeric facts\<close>

lemma EPSILON_pos: "0 < EPSILON"
  by (simp add: EPSILON_def)

section \<open>Camera: clamped projection parameters\<close>

lemma PI_ge2: "2 \<le> PI"
  by (simp add: PI_def pi_ge_two)

lemma set_fov_value:
  "c_fov (set_fov c v) = (if v < 0.01 then 0.01 else if PI - 0.01 < v then PI - 0.01 else v)"
  using PI_ge2 by (simp add: set_fov_def clamp_def max_def min_def)

lemma set_fov_range: "0.01 \<le> c_fov (set_fov c v) \<and> c_fov (set_fov c v) \<le> PI - 0.01"
  using PI_ge2 by (simp add: set_fov_value)

lemma new_camera_ok: "camera_params_ok (new_camera t)"
proof -
  have "2 \<le> pi" "pi < 4"
    using pi_ge_two pi_less_4 by simp_all
  then show ?thesis
    by (simp add: camera_params_ok_def new_camera_def DEG_TO_RAD_def PI_def)
qed

lemma assign_ok: "camera_params_ok c \<Longrightarrow> camera_params_ok (assign c a)"
proof (cases a)
  case (AssignFov v)
  assume "camera_params_ok c"
  then show ?thesis
    using set_fov_range [of c v] AssignFov
    by (simp add: camera_params_ok_def) (simp add: set_fov_def)
next
  case (AssignAspect v)
  assume "camera_params_ok c"
  then show ?thesis
    using AssignAspect by (simp add: camera_params_ok_def set_aspect_def)
next
  case (AssignNearClip v)
  assume "camera_params_ok c"
  then show ?thesis
    using AssignNearClip by (simp add: camera_params_ok_def set_near_clip_def)
qed

lemma foldl_assign_ok: "camera_params_ok c \<Longrightarrow> camera_params_ok (foldl assign c as)"
  by (induction as arbitrary: c) (simp_all add: assign_ok)

text \<open>
  Claim C10.  Whatever real number is assigned, the \<open>fov\<close> setter stores a value in
  \<open>[0.01, PI - 0.01]\<close>, the \<open>aspect\<close> setter a value of at least 0.01 and the \<open>near_clip\<close>
  setter a value of at least 0.001: an argument outside the range is replaced by the
  nearest bound, one inside is stored as it is, and no setter raises.  So after any run
  of such assignments on a freshly constructed camera all three bounds hold.
\<close>

theorem camera_setters_clamp:
  "camera_params_ok (foldl assign (new_camera t) as)
   \<and> 0.01 \<le> c_fov (set_fov c v) \<and> c_fov (set_fov c v) \<le> PI - 0.01
   \<and> 0.01 \<le> c_aspect (set_aspect c v)
   \<and> 0.001 \<le> c_near (set_near_clip c v)
   \<and> c_fov (set_fov c v) = (if v < 0.01 then 0.01 else if PI - 0.01 < v then PI - 0.01 else v)
   \<and> c_aspect (set_aspect c v) = (if v < 0.01 then 0.01 else v)
   \<and> c_near (set_near_clip c v) = (if v < 0.001 then 0.001 else v)"
proof -
  have a: "camera_params_ok (foldl assign (new_camera t) as)"
    by (rule foldl_assign_ok [OF new_camera_ok])
  have b: "c_aspect (set_aspect c v) = (if v < 0.01 then 0.01 else v)"
    by (simp add: set_aspect_def max_def)
  have d: "c_near (set_near_clip c v) = (if v < 0.001 then 0.001 else v)"
    by (simp add: set_near_clip_def max_def)
  have b': "0.01 \<le> c_aspect (set_aspect c v)"
    by (simp add: set_aspect_def)
  have d': "0.001 \<le> c_near (set_near_clip c v)"
    by (simp add: set_near_clip_def)
  show ?thesis
    using a b d b' d' set_fov_range [of c v] set_fov_value [of c v] by simp
qed

section \<open>Matrix4: inverse\<close>

lemma inverse_m_adjugate:
  "inverse_m m = (if \<bar>determinant m\<bar> < EPSILON then None
                  else Some (m_scale (adjugate m) (1 / determinant m)))"
  by (simp add: inverse_m_def determinant_def adjugate_def m_scale_def Let_def split: prod.splits)

lemma mat_mul_scale: "mat_mul a (m_scale b k) = m_scale (mat_mul a b) k"
  by (simp add: mat_mul_def m_scale_def algebra_simps)

lemma mat_mul_adjugate: "mat_mul m (adjugate m) = m_scale m_identity (determinant m)"
  apply (cases m)
  apply (simp add: mat_mul_def adjugate_def m_scale_def m_identity_def determinant_def
      sub_s_def sub_c_def)
  apply (intro conjI)
                 apply (simp_all add: algebra_simps)
  done

lemma m_scale_identity_cancel: "d \<noteq> 0 \<Longrightarrow> m_scale (m_scale m_identity d) (1 / d) = m_identity"
  by (simp add: m_scale_def m_identity_def)

lemma inverse_m_right:
  assumes "inverse_m m = Some mi"
  shows "mat_mul m mi = m_identity"
proof -
  have big: "\<not> \<bar>determinant m\<bar> < EPSILON"
    using assms by (simp add: inverse_m_adjugate split: if_splits)
  then have ne: "determinant m \<noteq> 0"
    using EPSILON_pos by auto
  have "mi = m_scale (adjugate m) (1 / determinant m)"
    using assms big by (simp add: inverse_m_adjugate)
  then have "mat_mul m mi = m_scale (m_scale m_identity (determinant m)) (1 / determinant m)"
    by (simp add: mat_mul_scale mat_mul_adjugate)
  then show ?thesis
    using ne by (simp add: m_scale_identity_cancel)
qed

lemma mat_mul_scale_left: "mat_mul (m_scale a k) b = m_scale (mat_mul a b) k"
  by (simp add: mat_mul_def m_scale_def algebra_simps)

lemma adjugate_mat_mul: "mat_mul (adjugate m) m = m_scale m_identity (determinant m)"
  apply (cases m)
  apply (simp add: mat_mul_def adjugate_def m_scale_def m_identity_def determinant_def
      sub_s_def sub_c_def)
  apply (intro conjI)
                 apply (simp_all add: algebra_simps)
  done

lemma inverse_m_left:
  assumes "inverse_m m = Some mi"
  shows "mat_mul mi m = m_identity"
proof -
  have big: "\<not> \<bar>determinant m\<bar> < EPSILON"
    using assms by (simp add: inverse_m_adjugate split: if_splits)
  then have ne: "determinant m \<noteq> 0"
    using EPSILON_pos by auto
  have "mi = m_scale (adjugate m) (1 / determinant m)"
    using assms big by (simp add: inverse_m_adjugate)
  then have "mat_mul mi m = m_scale (m_scale m_identity (determinant m)) (1 / determinant m)"
    by (simp add: mat_mul_scale_left adjugate_mat_mul)
  then show ?thesis
    using ne by (simp add: m_scale_identity_cancel)
qed

section \<open>Matrix4: composing and decomposing\<close>

lemma sqrt_square_numeral: "0 \<le> a \<Longrightarrow> sqrt (a * a) = a"
  by simp

lemma sqrt_1: "sqrt 1 = 1" by simp

lemma sqrt_4: "sqrt 4 = 2"
  using sqrt_square_numeral [of 2] by simp

lemma sqrt_9: "sqrt 9 = 3"
  using sqrt_square_numeral [of 3] by simp

lemma sqrt_16: "sqrt 16 = 4"
  using sqrt_square_numeral [of 4] by simp

lemma trs_example:
  "trs (Vector3 1 2 3) (Quaternion (1/2) (1/2) (1/2) (1/2)) (Vector3 2 3 4)
   = Matrix4 0 0 2 1  3 0 0 2  0 4 0 3  0 0 0 1"
  by (simp add: trs_def from_quaternion_def Let_def)

text \<open>
  Claim C5 at the translation \<open>(1, 2, 3)\<close>, the unit quaternion \<open>(1/2, 1/2, 1/2, 1/2)\<close> (a
  third of a turn about the diagonal) and the scale \<open>(2, 3, 4)\<close>: \<open>trs\<close> multiplies the rows
  of the rotation matrix by the scale, \<open>decompose\<close> measures its columns, and the scale
  that comes back is \<open>(3, 4, 2)\<close>.  Translation and rotation come back unchanged.
\<close>

theorem trs_decompose_permutes_scale:
  "q_magnitude (Quaternion (1/2) (1/2) (1/2) (1/2)) = 1
   \<and> decompose (trs (Vector3 1 2 3) (Quaternion (1/2) (1/2) (1/2) (1/2)) (Vector3 2 3 4))
     = Some (Vector3 1 2 3, Quaternion (1/2) (1/2) (1/2) (1/2), Vector3 3 4 2)"
proof -
  have det: "determinant (Matrix4 0 0 2 1  3 0 0 2  0 4 0 3  0 0 0 1) = 24"
    by (simp add: determinant_def sub_s_def sub_c_def)
  have mags: "magnitude (Vector3 0 3 0) = 3" "magnitude (Vector3 0 0 4) = 4"
    "magnitude (Vector3 2 0 0) = 2"
    by (simp_all add: magnitude_def sqrt_4 sqrt_9 sqrt_16)
  have rot: "from_matrix (Matrix4 0 0 1 0  1 0 0 0  0 1 0 0  0 0 0 1)
             = Some (Quaternion (1/2) (1/2) (1/2) (1/2))"
    by (simp add: from_matrix_def py_sqrt_def py_div_def Let_def)
  have "decompose (Matrix4 0 0 2 1  3 0 0 2  0 4 0 3  0 0 0 1)
        = Some (Vector3 1 2 3, Quaternion (1/2) (1/2) (1/2) (1/2), Vector3 3 4 2)"
    by (simp add: decompose_def det mags py_div_def rot Let_def)
  moreover have "q_magnitude (Quaternion (1/2) (1/2) (1/2) (1/2)) = 1"
    by (simp add: q_magnitude_def)
  ultimately show ?thesis
    by (simp add: trs_example)
qed

section \<open>WireframeRenderer: the grids\<close>


lemma grid_shaped_row: "grid_shaped w h buf \<Longrightarrow> i < length buf \<Longrightarrow> length (buf ! i) = nat w"
  by (simp add: grid_shaped_def list_all_length)

lemma grid_shaped_update:
  "grid_shaped w h buf \<Longrightarrow> grid_shaped w h (buf[i := (buf ! i)[j := v]])"
proof (cases "i < length buf")
  case True
  assume "grid_shaped w h buf"
  then show ?thesis
    using True by (auto simp: grid_shaped_def list_all_length nth_list_update)
next
  case False
  assume "grid_shaped w h buf"
  then show ?thesis
    using False by (simp add: list_update_beyond)
qed

lemma get_cell_in:
  assumes "grid_shaped w h buf" "0 \<le> x" "x < w" "0 \<le> y" "y < h"
  shows "get_cell buf y x = Some (buf ! nat y ! nat x)"
proof -
  have "nat y < length buf" using assms by (simp add: grid_shaped_def)
  moreover have "nat x < length (buf ! nat y)"
    using assms grid_shaped_row [OF assms(1) \<open>nat y < length buf\<close>] by simp
  ultimately show ?thesis using assms by (simp add: get_cell_def)
qed

lemma put_cell_ok:
  assumes "grid_shaped w h buf" "0 \<le> x" "x < w" "0 \<le> y" "y < h"
  shows "\<exists>buf'. put_cell buf y x v = Some buf' \<and> grid_shaped w h buf'
           \<and> (\<forall>py px. get_cell buf' py px
                 = (if px = x \<and> py = y then Some v else get_cell buf py px))"
proof -
  have ly: "nat y < length buf" using assms by (simp add: grid_shaped_def)
  have lx: "nat x < length (buf ! nat y)"
    using assms grid_shaped_row [OF assms(1) ly] by simp
  let ?b = "buf[nat y := (buf ! nat y)[nat x := v]]"
  have p: "put_cell buf y x v = Some ?b"
    using assms ly lx by (simp add: put_cell_def)
  have g: "grid_shaped w h ?b"
    by (rule grid_shaped_update [OF assms(1)])
  have c: "get_cell ?b py px = (if px = x \<and> py = y then Some v else get_cell buf py px)" for py px
  proof (cases "0 \<le> py \<and> 0 \<le> px")
    case False
    then show ?thesis using assms by (auto simp: get_cell_def)
  next
    case True
    then have eqs: "(nat py = nat y) = (py = y)" "(nat px = nat x) = (px = x)"
      using assms by auto
    show ?thesis
      using True ly lx eqs
      by (auto simp: get_cell_def nth_list_update)
  qed
  show ?thesis using p g c by blast
qed



lemma same_frame_refl: "well_shaped r \<Longrightarrow> same_frame r r"
  by (simp add: same_frame_def)

lemma same_frame_trans: "same_frame r r1 \<Longrightarrow> same_frame r1 r2 \<Longrightarrow> same_frame r r2"
  by (simp add: same_frame_def)

lemma same_frame_in_bounds: "same_frame r r' \<Longrightarrow> in_bounds r' x y = in_bounds r x y"
  by (simp add: same_frame_def in_bounds_def)

lemma plot_overlay_ok:
  assumes "well_shaped r"
  shows "\<exists>r'. plot_overlay r x y ch col = Some r' \<and> same_frame r r'
           \<and> r_depth_buffer r' = r_depth_buffer r
           \<and> (\<forall>py px. get_cell (r_char_buffer r') py px
                 = (if in_bounds r x y \<and> px = x \<and> py = y then Some ch
                    else get_cell (r_char_buffer r) py px))
           \<and> (\<forall>py px. get_cell (r_color_buffer r') py px
                 = (if in_bounds r x y \<and> px = x \<and> py = y then Some col
                    else get_cell (r_color_buffer r) py px))"
proof (cases "in_bounds r x y")
  case False
  then show ?thesis
    using assms by (simp add: plot_overlay_def same_frame_refl)
next
  case True
  then have b: "0 \<le> x" "x < r_width r" "0 \<le> y" "y < r_height r"
    by (simp_all add: in_bounds_def)
  have gc: "grid_shaped (r_width r) (r_height r) (r_char_buffer r)"
    and gl: "grid_shaped (r_width r) (r_height r) (r_color_buffer r)"
    and gd: "grid_shaped (r_width r) (r_height r) (r_depth_buffer r)"
    using assms by (simp_all add: well_shaped_def)
  from put_cell_ok [OF gc b, of ch] obtain cb where
    cb: "put_cell (r_char_buffer r) y x ch = Some cb" "grid_shaped (r_width r) (r_height r) cb"
    "\<forall>py px. get_cell cb py px = (if px = x \<and> py = y then Some ch else get_cell (r_char_buffer r) py px)"
    by blast
  from put_cell_ok [OF gl b, of col] obtain lb where
    lb: "put_cell (r_color_buffer r) y x col = Some lb" "grid_shaped (r_width r) (r_height r) lb"
    "\<forall>py px. get_cell lb py px = (if px = x \<and> py = y then Some col else get_cell (r_color_buffer r) py px)"
    by blast
  let ?r = "r\<lparr>r_char_buffer := cb, r_color_buffer := lb\<rparr>"
  have "plot_overlay r x y ch col = Some ?r"
    using True cb(1) lb(1) by (simp add: plot_overlay_def)
  moreover have "same_frame r ?r"
    using cb(2) lb(2) gd by (simp add: same_frame_def well_shaped_def)
  ultimately show ?thesis
    using True cb(3) lb(3) by simp
qed

lemma draw_text_from_ok:
  assumes "well_shaped r"
  shows "\<exists>r'. draw_text_from r x y col i tx = Some r' \<and> same_frame r r'
           \<and> r_depth_buffer r' = r_depth_buffer r
           \<and> (\<forall>j<length tx. in_bounds r (x + i + int j) y \<longrightarrow>
                 get_cell (r_char_buffer r') y (x + i + int j) = Some (tx ! j)
                 \<and> get_cell (r_color_buffer r') y (x + i + int j) = Some col)
           \<and> (\<forall>py px. \<not> (py = y \<and> x + i \<le> px \<and> px < x + i + int (length tx)) \<longrightarrow>
                 get_cell (r_char_buffer r') py px = get_cell (r_char_buffer r) py px
                 \<and> get_cell (r_color_buffer r') py px = get_cell (r_color_buffer r) py px)"
  using assms
proof (induction tx arbitrary: r i)
  case Nil
  then show ?case by (simp add: same_frame_refl)
next
  case (Cons ch rest)
  from plot_overlay_ok [OF Cons.prems, of "x + i" y ch col] obtain r1 where
    r1: "plot_overlay r (x + i) y ch col = Some r1" "same_frame r r1"
      "r_depth_buffer r1 = r_depth_buffer r"
      "\<forall>py px. get_cell (r_char_buffer r1) py px
            = (if in_bounds r (x + i) y \<and> px = x + i \<and> py = y then Some ch
               else get_cell (r_char_buffer r) py px)"
      "\<forall>py px. get_cell (r_color_buffer r1) py px
            = (if in_bounds r (x + i) y \<and> px = x + i \<and> py = y then Some col
               else get_cell (r_color_buffer r) py px)"
    by blast
  have w1: "well_shaped r1" using r1(2) by (simp add: same_frame_def)
  from Cons.IH [OF w1, of "i + 1"] obtain r' where
    r': "draw_text_from r1 x y col (i + 1) rest = Some r'" "same_frame r1 r'"
      "r_depth_buffer r' = r_depth_buffer r1"
      "\<forall>j<length rest. in_bounds r1 (x + (i + 1) + int j) y \<longrightarrow>
            get_cell (r_char_buffer r') y (x + (i + 1) + int j) = Some (rest ! j)
            \<and> get_cell (r_color_buffer r') y (x + (i + 1) + int j) = Some col"
      "\<forall>py px. \<not> (py = y \<and> x + (i + 1) \<le> px \<and> px < x + (i + 1) + int (length rest)) \<longrightarrow>
            get_cell (r_char_buffer r') py px = get_cell (r_char_buffer r1) py px
            \<and> get_cell (r_color_buffer r') py px = get_cell (r_color_buffer r1) py px"
    by blast
  have run: "draw_text_from r x y col i (ch # rest) = Some r'"
    using r1(1) r'(1) by simp
  have frame: "same_frame r r'"
    by (rule same_frame_trans [OF r1(2) r'(2)])
  have written: "in_bounds r (x + i + int j) y \<longrightarrow>
            get_cell (r_char_buffer r') y (x + i + int j) = Some ((ch # rest) ! j)
            \<and> get_cell (r_color_buffer r') y (x + i + int j) = Some col"
    if "j < length (ch # rest)" for j
  proof (cases j)
    case 0
    have "\<not> (y = y \<and> x + (i + 1) \<le> x + i \<and> x + i < x + (i + 1) + int (length rest))"
      by simp
    with r'(5) have "get_cell (r_char_buffer r') y (x + i) = get_cell (r_char_buffer r1) y (x + i)"
      "get_cell (r_color_buffer r') y (x + i) = get_cell (r_color_buffer r1) y (x + i)"
      by blast+
    then show ?thesis using 0 r1(4) r1(5) by simp
  next
    case (Suc j')
    then have "j' < length rest" using that by simp
    moreover have "x + (i + 1) + int j' = x + i + int j" using Suc by simp
    ultimately show ?thesis
      using r'(4) Suc same_frame_in_bounds [OF r1(2)] by (metis nth_Cons_Suc)
  qed
  have untouched: "get_cell (r_char_buffer r') py px = get_cell (r_char_buffer r) py px
            \<and> get_cell (r_color_buffer r') py px = get_cell (r_color_buffer r) py px"
    if "\<not> (py = y \<and> x + i \<le> px \<and> px < x + i + int (length (ch # rest)))" for py px
  proof -
    have a: "\<not> (py = y \<and> x + (i + 1) \<le> px \<and> px < x + (i + 1) + int (length rest))"
      using that by auto
    have b: "\<not> (px = x + i \<and> py = y)"
      using that by auto
    show ?thesis
      using r'(5) a r1(4) r1(5) b by auto
  qed
  show ?case
    using run frame r'(3) r1(3) written untouched by auto
qed



lemma make_stepper_ok: "stepper_ok (make_stepper x0 y0 x1 y1)"
  by (simp add: stepper_ok_def make_stepper_def)

lemma make_stepper_on_line:
  "on_line (make_stepper x0 y0 x1 y1) x0 y0 (\<bar>x1 - x0\<bar> - \<bar>y1 - y0\<bar>) \<bar>x1 - x0\<bar> \<bar>y1 - y0\<bar>"
  by (simp add: on_line_def make_stepper_def)

lemma on_line_end:
  assumes "stepper_ok b" "on_line b x y err rx ry"
  shows "(x = b_x1 b \<and> y = b_y1 b) \<longleftrightarrow> (rx = 0 \<and> ry = 0)"
  using assms by (auto simp: stepper_ok_def on_line_def)

lemma step_on_line:
  assumes ok: "stepper_ok b" and on: "on_line b x y err rx ry"
    and more: "\<not> (x = b_x1 b \<and> y = b_y1 b)"
  shows "\<exists>rx' ry'. on_line b (step_x b x err) (step_y b y err) (step_err b err) rx' ry'
           \<and> rx' \<le> rx \<and> ry' \<le> ry \<and> rx' + ry' < rx + ry"
proof -
  define dx dy where "dx = b_dx b" and "dy = b_dy b"
  have nn: "0 \<le> dx" "0 \<le> dy"
    using ok by (simp_all add: stepper_ok_def dx_def dy_def)
  have r: "0 \<le> rx" "rx \<le> dx" "0 \<le> ry" "ry \<le> dy"
    and e: "err = dx - dy + rx * dy - ry * dx"
    using on by (simp_all add: on_line_def dx_def dy_def)
  have some: "rx \<noteq> 0 \<or> ry \<noteq> 0"
    using more on_line_end [OF ok on] by blast
  have xstep: "1 \<le> rx" if "2 * err > - dy"
  proof (rule ccontr)
    assume "\<not> 1 \<le> rx"
    then have z: "rx = 0" using r by simp
    then have "1 \<le> ry" using some r by simp
    then have "dx * (1 - ry) \<le> 0"
      using nn by (simp add: mult_nonneg_nonpos)
    then have "err \<le> - dy"
      using e z by (simp add: algebra_simps)
    then show False using that nn by simp
  qed
  have ystep: "1 \<le> ry" if "2 * err < dx"
  proof (rule ccontr)
    assume "\<not> 1 \<le> ry"
    then have z: "ry = 0" using r by simp
    then have "1 \<le> rx" using some r by simp
    then have "0 \<le> dy * (rx - 1)"
      using nn by simp
    then have "dx \<le> err"
      using e z by (simp add: algebra_simps)
    then show False using that nn by simp
  qed
  have one: "2 * err > - dy \<or> 2 * err < dx"
  proof (rule ccontr)
    assume "\<not> (2 * err > - dy \<or> 2 * err < dx)"
    then have "dx = 0" "dy = 0" using nn by simp_all
    then show False using some r by simp
  qed
  define rx' where "rx' = (if 2 * err > - dy then rx - 1 else rx)"
  define ry' where "ry' = (if 2 * err < dx then ry - 1 else ry)"
  have sx: "b_sx b = 1 \<or> b_sx b = - 1" and sy: "b_sy b = 1 \<or> b_sy b = - 1"
    using ok by (simp_all add: stepper_ok_def)
  have px: "b_x1 b - step_x b x err = rx' * b_sx b"
    using on sx by (auto simp: step_x_def rx'_def on_line_def dy_def algebra_simps)
  have py: "b_y1 b - step_y b y err = ry' * b_sy b"
    using on sy by (auto simp: step_y_def ry'_def on_line_def dx_def algebra_simps)
  have pe: "step_err b err = dx - dy + rx' * dy - ry' * dx"
    using e by (simp add: step_err_def rx'_def ry'_def dx_def [symmetric] dy_def [symmetric]
        Let_def algebra_simps)
  have bounds: "0 \<le> rx'" "rx' \<le> dx" "0 \<le> ry'" "ry' \<le> dy"
    using r xstep ystep by (auto simp: rx'_def ry'_def)
  have "on_line b (step_x b x err) (step_y b y err) (step_err b err) rx' ry'"
    using px py pe bounds by (simp add: on_line_def dx_def dy_def)
  moreover have "rx' \<le> rx" "ry' \<le> ry" "rx' + ry' < rx + ry"
    using one by (auto simp: rx'_def ry'_def)
  ultimately show ?thesis by blast
qed



lemma on_line_cell_differs:
  assumes ok: "stepper_ok b"
    and a: "b_x1 b - x = rx * b_sx b" "b_y1 b - y = ry * b_sy b"
    and c: "b_x1 b - px = kx * b_sx b" "b_y1 b - py = ky * b_sy b"
    and le: "kx \<le> rx'" "ky \<le> ry'" "rx' \<le> rx" "ry' \<le> ry" "rx' + ry' < rx + ry"
  shows "\<not> (px = x \<and> py = y)"
proof
  assume eq: "px = x \<and> py = y"
  have sx: "b_sx b = 1 \<or> b_sx b = - 1" and sy: "b_sy b = 1 \<or> b_sy b = - 1"
    using ok by (simp_all add: stepper_ok_def)
  have "kx * b_sx b = rx * b_sx b" using a(1) c(1) eq by linarith
  then have "kx = rx" using sx by auto
  moreover have "ky * b_sy b = ry * b_sy b" using a(2) c(2) eq by linarith
  then have "ky = ry" using sy by auto
  ultimately show False using le by simp
qed

lemma draw_line_loop_ok:
  assumes "stepper_ok b" "on_line b x y err rx ry" "well_shaped r"
  shows "\<exists>r' cells. draw_line_loop b col ch r x y err = Some r'
           \<and> line_cells b x y err = Some cells
           \<and> same_frame r r' \<and> r_depth_buffer r' = r_depth_buffer r
           \<and> (\<forall>px py. (px, py) \<in> set cells \<longrightarrow>
                 (\<exists>kx ky. b_x1 b - px = kx * b_sx b \<and> b_y1 b - py = ky * b_sy b
                            \<and> kx \<le> rx \<and> ky \<le> ry))
           \<and> (\<forall>py px. get_cell (r_char_buffer r') py px
                 = (if in_bounds r px py \<and> (px, py) \<in> set cells
                    then Some (line_char b ch px py)
                    else get_cell (r_char_buffer r) py px))
           \<and> (\<forall>py px. get_cell (r_color_buffer r') py px
                 = (if in_bounds r px py \<and> (px, py) \<in> set cells
                    then Some col
                    else get_cell (r_color_buffer r) py px))"
  using assms
proof (induction "nat (rx + ry)" arbitrary: r x y err rx ry rule: less_induct)
  case less
  note ok = less.prems(1) and on = less.prems(2) and ws = less.prems(3)
  from plot_overlay_ok [OF ws, of x y "line_char b ch x y" col] obtain r1 where
    r1: "plot_overlay r x y (line_char b ch x y) col = Some r1" "same_frame r r1"
      "r_depth_buffer r1 = r_depth_buffer r"
      "\<forall>py px. get_cell (r_char_buffer r1) py px
            = (if in_bounds r x y \<and> px = x \<and> py = y then Some (line_char b ch x y)
               else get_cell (r_char_buffer r) py px)"
      "\<forall>py px. get_cell (r_color_buffer r1) py px
            = (if in_bounds r x y \<and> px = x \<and> py = y then Some col
               else get_cell (r_color_buffer r) py px)"
    by blast
  have here: "b_x1 b - x = rx * b_sx b" "b_y1 b - y = ry * b_sy b"
    using on by (simp_all add: on_line_def)
  show ?case
  proof (cases "x = b_x1 b \<and> y = b_y1 b")
    case True
    have run: "draw_line_loop b col ch r x y err = Some r1"
      using r1(1) True by (subst draw_line_loop.simps) simp
    have cells: "line_cells b x y err = Some [(x, y)]"
      using True by (subst line_cells.simps) simp
    have inside: "\<forall>px py. (px, py) \<in> set [(x, y)] \<longrightarrow>
                 (\<exists>kx ky. b_x1 b - px = kx * b_sx b \<and> b_y1 b - py = ky * b_sy b
                            \<and> kx \<le> rx \<and> ky \<le> ry)"
      using here by auto
    show ?thesis
      using run cells r1(2) r1(3) inside r1(4) r1(5)
      by (intro exI [of _ r1] exI [of _ "[(x, y)]"]) auto
  next
    case False
    from step_on_line [OF ok on False] obtain rx' ry' where
      st: "on_line b (step_x b x err) (step_y b y err) (step_err b err) rx' ry'"
        "rx' \<le> rx" "ry' \<le> ry" "rx' + ry' < rx + ry"
      by blast
    have nn: "0 \<le> rx'" "0 \<le> ry'" using st(1) by (simp_all add: on_line_def)
    have smaller: "nat (rx' + ry') < nat (rx + ry)"
      using st(4) nn by simp
    have w1: "well_shaped r1" using r1(2) by (simp add: same_frame_def)
    from less.hyps [OF smaller ok st(1) w1] obtain r' cells where
      rest: "draw_line_loop b col ch r1 (step_x b x err) (step_y b y err) (step_err b err) = Some r'"
        "line_cells b (step_x b x err) (step_y b y err) (step_err b err) = Some cells"
        "same_frame r1 r'" "r_depth_buffer r' = r_depth_buffer r1"
        "\<forall>px py. (px, py) \<in> set cells \<longrightarrow>
             (\<exists>kx ky. b_x1 b - px = kx * b_sx b \<and> b_y1 b - py = ky * b_sy b
                        \<and> kx \<le> rx' \<and> ky \<le> ry')"
        "\<forall>py px. get_cell (r_char_buffer r') py px
             = (if in_bounds r1 px py \<and> (px, py) \<in> set cells
                then Some (line_char b ch px py)
                else get_cell (r_char_buffer r1) py px)"
        "\<forall>py px. get_cell (r_color_buffer r') py px
             = (if in_bounds r1 px py \<and> (px, py) \<in> set cells
                then Some col
                else get_cell (r_color_buffer r1) py px)"
      by blast
    have run: "draw_line_loop b col ch r x y err = Some r'"
      by (subst draw_line_loop.simps) (simp add: r1(1) False rest(1))
    have cells: "line_cells b x y err = Some ((x, y) # cells)"
      by (subst line_cells.simps) (simp add: False rest(2))
    have notin: "(x, y) \<notin> set cells"
    proof
      assume "(x, y) \<in> set cells"
      with rest(5) obtain kx ky where
        q: "b_x1 b - x = kx * b_sx b" "b_y1 b - y = ky * b_sy b" "kx \<le> rx'" "ky \<le> ry'"
        by blast
      from on_line_cell_differs [OF ok here q(1) q(2) q(3) q(4) st(2) st(3) st(4)]
      show False by simp
    qed
    have inside: "\<forall>px py. (px, py) \<in> set ((x, y) # cells) \<longrightarrow>
                 (\<exists>kx ky. b_x1 b - px = kx * b_sx b \<and> b_y1 b - py = ky * b_sy b
                            \<and> kx \<le> rx \<and> ky \<le> ry)"
    proof (intro allI impI)
      fix px py
      assume "(px, py) \<in> set ((x, y) # cells)"
      then consider "px = x \<and> py = y" | "(px, py) \<in> set cells" by auto
      then show "\<exists>kx ky. b_x1 b - px = kx * b_sx b \<and> b_y1 b - py = ky * b_sy b
                            \<and> kx \<le> rx \<and> ky \<le> ry"
      proof cases
        case 1
        then show ?thesis using here by auto
      next
        case 2
        with rest(5) obtain kx ky where
          "b_x1 b - px = kx * b_sx b" "b_y1 b - py = ky * b_sy b" "kx \<le> rx'" "ky \<le> ry'"
          by blast
        then show ?thesis using st(2) st(3) by (intro exI [of _ kx] exI [of _ ky]) simp
      qed
    qed
    have ib: "in_bounds r1 px py = in_bounds r px py" for px py
      by (rule same_frame_in_bounds [OF r1(2)])
    have chars: "get_cell (r_char_buffer r') py px
                 = (if in_bounds r px py \<and> (px, py) \<in> set ((x, y) # cells)
                    then Some (line_char b ch px py)
                    else get_cell (r_char_buffer r) py px)" for py px
      using rest(6) r1(4) notin ib by auto
    have cols: "get_cell (r_color_buffer r') py px
                 = (if in_bounds r px py \<and> (px, py) \<in> set ((x, y) # cells)
                    then Some col
                    else get_cell (r_color_buffer r) py px)" for py px
      using rest(7) r1(5) notin ib by auto
    have frame: "same_frame r r'"
      by (rule same_frame_trans [OF r1(2) rest(3)])
    show ?thesis
      using run cells frame rest(4) r1(3) inside chars cols
      by (intro exI [of _ r'] exI [of _ "(x, y) # cells"]) simp
  qed
qed



lemma line_cells_ends:
  assumes "stepper_ok b" "on_line b x y err rx ry"
  shows "\<exists>cells. line_cells b x y err = Some cells \<and> cells \<noteq> []
           \<and> hd cells = (x, y) \<and> last cells = (b_x1 b, b_y1 b)"
  using assms
proof (induction "nat (rx + ry)" arbitrary: x y err rx ry rule: less_induct)
  case less
  note ok = less.prems(1) and on = less.prems(2)
  show ?case
  proof (cases "x = b_x1 b \<and> y = b_y1 b")
    case True
    have "line_cells b x y err = Some [(x, y)]"
      using True by (subst line_cells.simps) simp
    then show ?thesis using True by simp
  next
    case False
    from step_on_line [OF ok on False] obtain rx' ry' where
      st: "on_line b (step_x b x err) (step_y b y err) (step_err b err) rx' ry'"
        "rx' + ry' < rx + ry"
      by blast
    have "0 \<le> rx'" "0 \<le> ry'" using st(1) by (simp_all add: on_line_def)
    then have smaller: "nat (rx' + ry') < nat (rx + ry)"
      using st(2) by simp
    from less.hyps [OF smaller ok st(1)] obtain cells where
      c: "line_cells b (step_x b x err) (step_y b y err) (step_err b err) = Some cells"
        "cells \<noteq> []" "last cells = (b_x1 b, b_y1 b)"
      by blast
    have "line_cells b x y err = Some ((x, y) # cells)"
      by (subst line_cells.simps) (simp add: False c(1))
    then show ?thesis using c(2) c(3) by simp
  qed
qed

lemma well_shaped_clear: "well_shaped (clear r g col)"
  by (simp add: well_shaped_def clear_def grid_shaped_def list_all_iff)

lemma well_shaped_new_renderer: "well_shaped (new_renderer w h)"
  by (simp add: new_renderer_def well_shaped_clear)

lemma set_char_tested:
  assumes "well_shaped r" "r_depth_testing r" "in_bounds r x y"
  shows "\<exists>stored. get_cell (r_depth_buffer r) y x = Some stored
           \<and> (\<not> depth_le depth stored \<longrightarrow> set_char r x y g col depth = Some r)
           \<and> (depth_le depth stored \<longrightarrow>
                (\<exists>r'. set_char r x y g col depth = Some r'
                   \<and> get_cell (r_char_buffer r') y x = Some g
                   \<and> get_cell (r_color_buffer r') y x = Some col
                   \<and> get_cell (r_depth_buffer r') y x = Some (Finite depth)))"
proof -
  have b: "0 \<le> x" "x < r_width r" "0 \<le> y" "y < r_height r"
    using assms(3) by (simp_all add: in_bounds_def)
  have gc: "grid_shaped (r_width r) (r_height r) (r_char_buffer r)"
    and gl: "grid_shaped (r_width r) (r_height r) (r_color_buffer r)"
    and gd: "grid_shaped (r_width r) (r_height r) (r_depth_buffer r)"
    using assms(1) by (simp_all add: well_shaped_def)
  from get_cell_in [OF gd b] obtain stored where
    st: "get_cell (r_depth_buffer r) y x = Some stored"
    by blast
  from put_cell_ok [OF gc b, of g] obtain cb where
    cb: "put_cell (r_char_buffer r) y x g = Some cb" "get_cell cb y x = Some g"
    by auto
  from put_cell_ok [OF gl b, of col] obtain lb where
    lb: "put_cell (r_color_buffer r) y x col = Some lb" "get_cell lb y x = Some col"
    by auto
  from put_cell_ok [OF gd b, of "Finite depth"] obtain db where
    db: "put_cell (r_depth_buffer r) y x (Finite depth) = Some db"
      "get_cell db y x = Some (Finite depth)"
    by auto
  have no: "set_char r x y g col depth = Some r" if "\<not> depth_le depth stored"
    using that assms(2) assms(3) st by (simp add: set_char_def)
  have yes: "set_char r x y g col depth
             = Some (r\<lparr>r_char_buffer := cb, r_color_buffer := lb, r_depth_buffer := db\<rparr>)"
    if "depth_le depth stored"
    using that assms(2) assms(3) st cb(1) lb(1) db(1) by (simp add: set_char_def)
  show ?thesis
    using st no yes cb(2) lb(2) db(2) by auto
qed

text \<open>
  Claim C9.  On a renderer whose grids have the shape \<open>clear\<close> gives them, \<open>draw_line\<close> and
  \<open>draw_text\<close> return with the depth grid as it was; every cell inside the grid that the
  line passes through (from the start point to the end point) holds the line's character
  and colour afterwards, and every cell inside the grid under a character of the text
  holds that character and the colour, whatever depth is stored there.  \<open>set_char\<close>, with
  depth testing on (the constructor sets the flag and nothing clears it), leaves the
  renderer as it was when its depth argument exceeds the stored depth, and writes
  character, colour and depth when it is at most the stored depth.
\<close>

theorem overlays_bypass_depth:
  assumes "well_shaped r"
  shows "\<exists>r1 cells r2.
      draw_line r x0 y0 x1 y1 col ch = Some r1
    \<and> line_cells (make_stepper x0 y0 x1 y1) x0 y0 (\<bar>x1 - x0\<bar> - \<bar>y1 - y0\<bar>) = Some cells
    \<and> cells \<noteq> [] \<and> hd cells = (x0, y0) \<and> last cells = (x1, y1)
    \<and> r_depth_buffer r1 = r_depth_buffer r
    \<and> (\<forall>px py. (px, py) \<in> set cells \<and> in_bounds r px py \<longrightarrow>
          get_cell (r_char_buffer r1) py px = Some (line_char (make_stepper x0 y0 x1 y1) ch px py)
          \<and> get_cell (r_color_buffer r1) py px = Some col)
    \<and> draw_text r x y tx col = Some r2
    \<and> r_depth_buffer r2 = r_depth_buffer r
    \<and> (\<forall>i<length tx. in_bounds r (x + int i) y \<longrightarrow>
          get_cell (r_char_buffer r2) y (x + int i) = Some (tx ! i)
          \<and> get_cell (r_color_buffer r2) y (x + int i) = Some col)
    \<and> (r_depth_testing r \<and> in_bounds r x y \<longrightarrow>
         (\<exists>stored. get_cell (r_depth_buffer r) y x = Some stored
            \<and> (\<not> depth_le depth stored \<longrightarrow> set_char r x y g col depth = Some r)
            \<and> (depth_le depth stored \<longrightarrow>
                 (\<exists>r3. set_char r x y g col depth = Some r3
                    \<and> get_cell (r_char_buffer r3) y x = Some g
                    \<and> get_cell (r_color_buffer r3) y x = Some col
                    \<and> get_cell (r_depth_buffer r3) y x = Some (Finite depth)))))"
proof -
  let ?b = "make_stepper x0 y0 x1 y1"
  let ?e = "\<bar>x1 - x0\<bar> - \<bar>y1 - y0\<bar>"
  from draw_line_loop_ok [OF make_stepper_ok make_stepper_on_line assms, of x0 y0 x1 y1 col ch]
  obtain r1 cells where
    l: "draw_line_loop ?b col ch r x0 y0 ?e = Some r1"
      "line_cells ?b x0 y0 ?e = Some cells"
      "r_depth_buffer r1 = r_depth_buffer r"
      "\<forall>py px. get_cell (r_char_buffer r1) py px
            = (if in_bounds r px py \<and> (px, py) \<in> set cells
               then Some (line_char ?b ch px py)
               else get_cell (r_char_buffer r) py px)"
      "\<forall>py px. get_cell (r_color_buffer r1) py px
            = (if in_bounds r px py \<and> (px, py) \<in> set cells
               then Some col
               else get_cell (r_color_buffer r) py px)"
    by blast
  have dl: "draw_line r x0 y0 x1 y1 col ch = Some r1"
    using l(1) by (simp add: draw_line_def make_stepper_def Let_def)
  from line_cells_ends [OF make_stepper_ok make_stepper_on_line, of x0 y0 x1 y1]
  have ends: "cells \<noteq> []" "hd cells = (x0, y0)" "last cells = (x1, y1)"
    using l(2) by (simp_all add: make_stepper_def)
  from draw_text_from_ok [OF assms, of x y col 0 tx] obtain r2 where
    t: "draw_text_from r x y col 0 tx = Some r2"
      "r_depth_buffer r2 = r_depth_buffer r"
      "\<forall>j<length tx. in_bounds r (x + 0 + int j) y \<longrightarrow>
            get_cell (r_char_buffer r2) y (x + 0 + int j) = Some (tx ! j)
            \<and> get_cell (r_color_buffer r2) y (x + 0 + int j) = Some col"
    by blast
  have dt: "draw_text r x y tx col = Some r2"
    using t(1) by (simp add: draw_text_def)
  have sc: "r_depth_testing r \<and> in_bounds r x y \<longrightarrow>
         (\<exists>stored. get_cell (r_depth_buffer r) y x = Some stored
            \<and> (\<not> depth_le depth stored \<longrightarrow> set_char r x y g col depth = Some r)
            \<and> (depth_le depth stored \<longrightarrow>
                 (\<exists>r3. set_char r x y g col depth = Some r3
                    \<and> get_cell (r_char_buffer r3) y x = Some g
                    \<and> get_cell (r_color_buffer r3) y x = Some col
                    \<and> get_cell (r_depth_buffer r3) y x = Some (Finite depth))))"
    using set_char_tested [OF assms] by blast
  show ?thesis
    apply (rule exI [of _ r1], rule exI [of _ cells], rule exI [of _ r2])
    using dl l(2) ends l(3) l(4) l(5) dt t(2) t(3) sc by simp
qed



theorem overlays_bypass_depth_witness:
  "well_shaped (new_renderer 4 3)
   \<and> (\<exists>r1. draw_line (new_renderer 4 3) 0 0 3 2 (Some (255, 0, 0)) None = Some r1
          \<and> r_depth_buffer r1 = r_depth_buffer (new_renderer 4 3)
          \<and> get_cell (r_color_buffer r1) 0 0 = Some (Some (255, 0, 0)))
   \<and> (\<exists>r2. draw_text (new_renderer 4 3) 1 1 [''a'', ''b''] (Some (255, 0, 0)) = Some r2
          \<and> r_depth_buffer r2 = r_depth_buffer (new_renderer 4 3)
          \<and> get_cell (r_char_buffer r2) 1 2 = Some ''b'')"
proof -
  have ws: "well_shaped (new_renderer 4 3)"
    by (rule well_shaped_new_renderer)
  have ib: "in_bounds (new_renderer 4 3) 0 0" "in_bounds (new_renderer 4 3) (1 + int 1) 1"
    by (simp_all add: in_bounds_def new_renderer_def clear_def)
  from overlays_bypass_depth [OF ws, of 0 0 3 2 "Some (255, 0, 0)" None 1 1 "[''a'', ''b'']" 0 "''c''"]
  obtain r1 cells r2 where
    h: "draw_line (new_renderer 4 3) 0 0 3 2 (Some (255, 0, 0)) None = Some r1"
      "hd cells = (0, 0)" "cells \<noteq> []"
      "line_cells (make_stepper 0 0 3 2) 0 0 (\<bar>3 - 0\<bar> - \<bar>2 - 0\<bar>) = Some cells"
      "r_depth_buffer r1 = r_depth_buffer (new_renderer 4 3)"
      "\<forall>px py. (px, py) \<in> set cells \<and> in_bounds (new_renderer 4 3) px py \<longrightarrow>
          get_cell (r_char_buffer r1) py px = Some (line_char (make_stepper 0 0 3 2) None px py)
          \<and> get_cell (r_color_buffer r1) py px = Some (Some (255, 0, 0))"
      "draw_text (new_renderer 4 3) 1 1 [''a'', ''b''] (Some (255, 0, 0)) = Some r2"
      "r_depth_buffer r2 = r_depth_buffer (new_renderer 4 3)"
      "\<forall>i<length [''a'', ''b'']. in_bounds (new_renderer 4 3) (1 + int i) 1 \<longrightarrow>
          get_cell (r_char_buffer r2) 1 (1 + int i) = Some ([''a'', ''b''] ! i)
          \<and> get_cell (r_color_buffer r2) 1 (1 + int i) = Some (Some (255, 0, 0))"
    by blast
  have "(0, 0) \<in> set cells"
    using h(2) h(3) hd_in_set by metis
  then have c1: "get_cell (r_color_buffer r1) 0 0 = Some (Some (255, 0, 0))"
    using h(6) ib(1) by blast
  have "(1::nat) < length [''a'', ''b'']" by simp
  then have "get_cell (r_char_buffer r2) 1 (1 + int 1) = Some ([''a'', ''b''] ! 1)"
    using h(9) ib(2) by blast
  then have c2: "get_cell (r_char_buffer r2) 1 2 = Some ''b''"
    by simp
  show ?thesis
    using ws h(1) h(5) c1 h(7) h(8) c2 by blast
qed

section \<open>WireframeRenderer: resize and the camera\<close>

lemma resize_camera: "r_camera (resize r w h) = r_camera r"
  by (simp add: resize_def clear_def)

text \<open>
  Claim C8 on a renderer of 80 by 24 cells with a camera attached: \<open>set_camera\<close> gives the
  camera the aspect \<open>80 / (24 * 2) = 5/3\<close>, and after \<open>resize(100, 10)\<close> the aspect is still
  \<open>5/3\<close>, not \<open>100 / (10 * 2) = 5\<close>: \<open>resize\<close> sets the size and clears the grids, and
  leaves the camera as it was.
\<close>

theorem resize_keeps_camera_aspect:
  "r_camera (resize r w h) = r_camera r
   \<and> (\<exists>r1. set_camera (new_renderer 80 24) (new_camera t) = Some r1
         \<and> map_option c_aspect (r_camera r1) = Some (5 / 3)
         \<and> map_option c_aspect (r_camera (resize r1 100 10)) = Some (5 / 3))"
  by (simp add: resize_camera set_camera_def new_renderer_def clear_def py_div_def set_aspect_def)


section \<open>WireframeRenderer: edges and the depth test\<close>


declare draw_edge_loop.simps [simp del]
declare edge_cells_from.simps [simp del]

lemma get_cell_out:
  assumes "grid_shaped w h buf" "\<not> (0 \<le> x \<and> x < w \<and> 0 \<le> y \<and> y < h)"
  shows "get_cell buf y x = None"
proof (cases "0 \<le> y \<and> nat y < length buf \<and> 0 \<le> x")
  case True
  then have "length (buf ! nat y) = nat w" "y < h"
    using assms(1) grid_shaped_row [OF assms(1), of "nat y"] by (auto simp: grid_shaped_def)
  then have "\<not> nat x < length (buf ! nat y)"
    using assms(2) True by auto
  then show ?thesis by (simp add: get_cell_def)
next
  case False
  then show ?thesis by (auto simp: get_cell_def)
qed

lemma pix_out_of_bounds:
  assumes "well_shaped r"
  shows "pix r x y = (if in_bounds r x y
                      then (Some (r_depth_buffer r ! nat y ! nat x), Some (r_color_buffer r ! nat y ! nat x))
                      else (None, None))"
proof (cases "in_bounds r x y")
  case True
  then have b: "0 \<le> x" "x < r_width r" "0 \<le> y" "y < r_height r"
    by (simp_all add: in_bounds_def)
  have gl: "grid_shaped (r_width r) (r_height r) (r_color_buffer r)"
    and gd: "grid_shaped (r_width r) (r_height r) (r_depth_buffer r)"
    using assms by (simp_all add: well_shaped_def)
  show ?thesis
    using True get_cell_in [OF gd b] get_cell_in [OF gl b] by (simp add: pix_def)
next
  case False
  have gl: "grid_shaped (r_width r) (r_height r) (r_color_buffer r)"
    and gd: "grid_shaped (r_width r) (r_height r) (r_depth_buffer r)"
    using assms by (simp_all add: well_shaped_def)
  have nb: "\<not> (0 \<le> x \<and> x < r_width r \<and> 0 \<le> y \<and> y < r_height r)"
    using False by (simp add: in_bounds_def)
  show ?thesis
    using False get_cell_out [OF gl nb] get_cell_out [OF gd nb] by (simp add: pix_def)
qed

lemma plot_edge_ok:
  assumes "well_shaped r" "r_depth_testing r"
  shows "\<exists>r'. plot_edge b e ms r step x y = Some r' \<and> same_frame r r'
           \<and> (\<forall>px py. pix r' px py
                 = (if in_bounds r x y \<and> px = x \<and> py = y
                    then zwrite (pe_color e) (pix r px py) (edge_depth_at e ms step)
                    else pix r px py))"
proof (cases "in_bounds r x y")
  case False
  then show ?thesis
    using assms by (simp add: plot_edge_def same_frame_refl)
next
  case True
  then have b: "0 \<le> x" "x < r_width r" "0 \<le> y" "y < r_height r"
    by (simp_all add: in_bounds_def)
  have gc: "grid_shaped (r_width r) (r_height r) (r_char_buffer r)"
    and gl: "grid_shaped (r_width r) (r_height r) (r_color_buffer r)"
    and gd: "grid_shaped (r_width r) (r_height r) (r_depth_buffer r)"
    using assms by (simp_all add: well_shaped_def)
  define d where "d = edge_depth_at e ms step"
  from get_cell_in [OF gd b] obtain stored where
    st: "get_cell (r_depth_buffer r) y x = Some stored"
    by blast
  show ?thesis
  proof (cases "depth_lt d stored")
    case False
    have "plot_edge b e ms r step x y = Some r"
      using True assms(2) st False by (simp add: plot_edge_def d_def Let_def)
    moreover have "zwrite (pe_color e) (pix r x y) d = pix r x y"
      using st False by (simp add: zwrite_def pix_def)
    ultimately show ?thesis
      using assms(1) by (auto simp: same_frame_refl d_def)
  next
    case lt: True
    from put_cell_ok [OF gc b, of "get_edge_char x y (b_x1 b) (b_y1 b) (b_dx b) (b_dy b)"]
    obtain cb where
      cb: "put_cell (r_char_buffer r) y x (get_edge_char x y (b_x1 b) (b_y1 b) (b_dx b) (b_dy b)) = Some cb"
        "grid_shaped (r_width r) (r_height r) cb"
      by blast
    from put_cell_ok [OF gd b, of "Finite d"] obtain db where
      db: "put_cell (r_depth_buffer r) y x (Finite d) = Some db"
        "grid_shaped (r_width r) (r_height r) db"
        "\<forall>py px. get_cell db py px = (if px = x \<and> py = y then Some (Finite d) else get_cell (r_depth_buffer r) py px)"
      by blast
    from put_cell_ok [OF gl b, of "Some (pe_color e)"] obtain lb where
      lb: "put_cell (r_color_buffer r) y x (Some (pe_color e)) = Some lb"
        "grid_shaped (r_width r) (r_height r) lb"
        "\<forall>py px. get_cell lb py px = (if px = x \<and> py = y then Some (Some (pe_color e)) else get_cell (r_color_buffer r) py px)"
      by blast
    let ?r = "r\<lparr>r_char_buffer := cb, r_depth_buffer := db, r_color_buffer := lb\<rparr>"
    have run: "plot_edge b e ms r step x y = Some ?r"
      using True assms(2) st lt cb(1) db(1) lb(1) by (simp add: plot_edge_def d_def Let_def)
    have fr: "same_frame r ?r"
      using cb(2) db(2) lb(2) by (simp add: same_frame_def well_shaped_def)
    have zw: "zwrite (pe_color e) (pix r x y) d = (Some (Finite d), Some (Some (pe_color e)))"
      using st lt by (simp add: zwrite_def pix_def)
    have "pix ?r px py = (if in_bounds r x y \<and> px = x \<and> py = y
                    then zwrite (pe_color e) (pix r px py) d
                    else pix r px py)" for px py
      using True db(3) lb(3) zw by (auto simp: pix_def)
    then show ?thesis
      using run fr by (auto simp: d_def)
  qed
qed

lemma depths_at_Nil: "depths_at [] x y = []"
  by (simp add: depths_at_def)

lemma depths_at_Cons:
  "depths_at ((cx, cy, d) # cells) x y
   = (if cx = x \<and> cy = y then d # depths_at cells x y else depths_at cells x y)"
  by (simp add: depths_at_def)

lemma draw_edge_loop_ok:
  assumes "well_shaped r" "r_depth_testing r"
  shows "\<exists>r'. draw_edge_loop b e ms r step x y err = Some r' \<and> same_frame r r'
           \<and> (\<forall>px py. in_bounds r px py \<longrightarrow>
                 pix r' px py = foldl (zwrite (pe_color e)) (pix r px py)
                                  (depths_at (edge_cells_from b e ms step x y err) px py))"
  using assms
proof (induction b e ms r step x y err rule: draw_edge_loop.induct)
  case (1 b e ms r step x y err)
  show ?case
  proof (cases "step < ms")
    case False
    have "draw_edge_loop b e ms r step x y err = Some r"
      by (subst draw_edge_loop.simps) (simp add: False)
    moreover have "edge_cells_from b e ms step x y err = []"
      by (subst edge_cells_from.simps) (simp add: False)
    ultimately show ?thesis
      using "1.prems" by (simp add: same_frame_refl depths_at_Nil)
  next
    case True
    from plot_edge_ok [OF "1.prems", of b e ms step x y] obtain r1 where
      r1: "plot_edge b e ms r step x y = Some r1" "same_frame r r1"
        "\<forall>px py. pix r1 px py
              = (if in_bounds r x y \<and> px = x \<and> py = y
                 then zwrite (pe_color e) (pix r px py) (edge_depth_at e ms step)
                 else pix r px py)"
      by blast
    show ?thesis
    proof (cases "x = b_x1 b \<and> y = b_y1 b")
      case at_end: True
      have run: "draw_edge_loop b e ms r step x y err = Some r1"
        using r1(1) at_end by (subst draw_edge_loop.simps) (simp add: True)
      have cells: "edge_cells_from b e ms step x y err = [(x, y, edge_depth_at e ms step)]"
        using at_end by (subst edge_cells_from.simps) (simp add: True)
      show ?thesis
        using run r1(2) r1(3) by (auto simp: cells depths_at_Cons depths_at_Nil)
    next
      case False
      have w1: "well_shaped r1" "r_depth_testing r1"
        using r1(2) "1.prems" by (simp_all add: same_frame_def)
      from "1.IH" [OF True r1(1) False w1] obtain r' where
        r': "draw_edge_loop b e ms r1 (step + 1) (step_x b x err) (step_y b y err) (step_err b err)
             = Some r'"
          "same_frame r1 r'"
          "\<forall>px py. in_bounds r1 px py \<longrightarrow>
              pix r' px py = foldl (zwrite (pe_color e)) (pix r1 px py)
                (depths_at (edge_cells_from b e ms (step + 1) (step_x b x err) (step_y b y err)
                   (step_err b err)) px py)"
        by blast
      have run: "draw_edge_loop b e ms r step x y err = Some r'"
        by (subst draw_edge_loop.simps) (simp add: True r1(1) False r'(1))
      have cells: "edge_cells_from b e ms step x y err
                   = (x, y, edge_depth_at e ms step) #
                     edge_cells_from b e ms (step + 1) (step_x b x err) (step_y b y err)
                       (step_err b err)"
        by (subst edge_cells_from.simps) (simp add: True False)
      have ib: "in_bounds r1 px py = in_bounds r px py" for px py
        by (rule same_frame_in_bounds [OF r1(2)])
      have "pix r' px py = foldl (zwrite (pe_color e)) (pix r px py)
                                  (depths_at (edge_cells_from b e ms step x y err) px py)"
        if "in_bounds r px py" for px py
        using that r'(3) r1(3) ib by (auto simp: cells depths_at_Cons)
      then show ?thesis
        using run same_frame_trans [OF r1(2) r'(2)] by blast
    qed
  qed
qed



lemma step_phi:
  assumes "stepper_ok b" "\<not> (b_dx b = 0 \<and> b_dy b = 0)"
  shows "b_sx b * x + b_sy b * y < b_sx b * step_x b x err + b_sy b * step_y b y err"
proof -
  have nn: "0 \<le> b_dx b" "0 \<le> b_dy b"
    and sx: "b_sx b * b_sx b = 1" and sy: "b_sy b * b_sy b = 1"
    using assms(1) by (auto simp: stepper_ok_def)
  have one: "2 * err > - b_dy b \<or> 2 * err < b_dx b"
    using nn assms(2) by linarith
  have x: "b_sx b * step_x b x err
           = b_sx b * x + (if 2 * err > - b_dy b then 1 else 0)"
    using sx by (simp add: step_x_def algebra_simps)
  have y: "b_sy b * step_y b y err
           = b_sy b * y + (if 2 * err < b_dx b then 1 else 0)"
    using sy by (simp add: step_y_def algebra_simps)
  show ?thesis
    using one unfolding x y by auto
qed

lemma edge_cells_from_phi:
  assumes "stepper_ok b" "\<not> (b_dx b = 0 \<and> b_dy b = 0)"
    and "(cx, cy, d) \<in> set (edge_cells_from b e ms step x y err)"
  shows "b_sx b * x + b_sy b * y \<le> b_sx b * cx + b_sy b * cy"
  using assms
proof (induction b e ms step x y err rule: edge_cells_from.induct)
  case (1 b e ms step x y err)
  have lt: "step < ms"
    using "1.prems"(3) by (subst (asm) edge_cells_from.simps) (auto split: if_splits)
  show ?case
  proof (cases "cx = x \<and> cy = y")
    case True
    then show ?thesis by simp
  next
    case False
    have notend: "\<not> (x = b_x1 b \<and> y = b_y1 b)"
      using "1.prems"(3) False lt by (subst (asm) edge_cells_from.simps) (auto split: if_splits)
    have "(cx, cy, d) \<in> set (edge_cells_from b e ms (step + 1) (step_x b x err) (step_y b y err)
             (step_err b err))"
      using "1.prems"(3) False lt notend
      by (subst (asm) edge_cells_from.simps) (auto split: if_splits)
    from "1.IH" [OF lt notend "1.prems"(1) "1.prems"(2) this]
    show ?thesis
      using step_phi [OF "1.prems"(1) "1.prems"(2), of x y err] by linarith
  qed
qed

lemma edge_cells_from_distinct:
  assumes "stepper_ok b" "\<not> (b_dx b = 0 \<and> b_dy b = 0)"
  shows "distinct (map (\<lambda>(cx, cy, d). (cx, cy)) (edge_cells_from b e ms step x y err))"
  using assms
proof (induction b e ms step x y err rule: edge_cells_from.induct)
  case (1 b e ms step x y err)
  show ?case
  proof (cases "step < ms \<and> \<not> (x = b_x1 b \<and> y = b_y1 b)")
    case False
    then show ?thesis
      by (subst edge_cells_from.simps) auto
  next
    case True
    let ?rest = "edge_cells_from b e ms (step + 1) (step_x b x err) (step_y b y err) (step_err b err)"
    have lt: "step < ms" and notend: "\<not> (x = b_x1 b \<and> y = b_y1 b)"
      using True by simp_all
    have cells: "edge_cells_from b e ms step x y err = (x, y, edge_depth_at e ms step) # ?rest"
      by (subst edge_cells_from.simps) (simp add: lt notend)
    have d: "distinct (map (\<lambda>(cx, cy, d). (cx, cy)) ?rest)"
      by (rule "1.IH" [OF lt notend "1.prems"])
    have "(x, y) \<notin> set (map (\<lambda>(cx, cy, d). (cx, cy)) ?rest)"
    proof
      assume "(x, y) \<in> set (map (\<lambda>(cx, cy, d). (cx, cy)) ?rest)"
      then obtain d where "(x, y, d) \<in> set ?rest" by auto
      from edge_cells_from_phi [OF "1.prems" this]
      show False
        using step_phi [OF "1.prems", of x y err] by linarith
    qed
    then show ?thesis
      using d by (simp add: cells)
  qed
qed

lemma edge_cells_distinct: "distinct (map (\<lambda>(cx, cy, d). (cx, cy)) (edge_cells e))"
proof -
  define x0 y0 x1 y1 where "x0 = py_int (pv_screen_x (pe_v1 e))"
    and "y0 = py_int (pv_screen_y (pe_v1 e))"
    and "x1 = py_int (pv_screen_x (pe_v2 e))"
    and "y1 = py_int (pv_screen_y (pe_v2 e))"
  define b where "b = make_stepper x0 y0 x1 y1"
  have ec: "edge_cells e = edge_cells_from b e (max (b_dx b) (b_dy b) + 1) 0 x0 y0 (b_dx b - b_dy b)"
    by (simp add: edge_cells_def Let_def b_def x0_def y0_def x1_def y1_def)
  show ?thesis
  proof (cases "b_dx b = 0 \<and> b_dy b = 0")
    case False
    show ?thesis
      unfolding ec by (rule edge_cells_from_distinct [OF _ False]) (simp add: b_def make_stepper_ok)
  next
    case True
    then have "x0 = b_x1 b" "y0 = b_y1 b"
      by (simp_all add: b_def make_stepper_def)
    then have "edge_cells_from b e (max (b_dx b) (b_dy b) + 1) 0 x0 y0 (b_dx b - b_dy b)
               = [(x0, y0, edge_depth_at e (max (b_dx b) (b_dy b) + 1) 0)]"
      using True by (subst edge_cells_from.simps) simp
    then show ?thesis
      by (simp add: ec)
  qed
qed

lemma depths_at_unique:
  assumes "distinct (map (\<lambda>(cx, cy, d). (cx, cy)) cells)" "(x, y, d) \<in> set cells"
  shows "depths_at cells x y = [d]"
  using assms
proof (induction cells)
  case Nil
  then show ?case by simp
next
  case (Cons c cells)
  obtain cx cy cd where c: "c = (cx, cy, cd)" by (cases c)
  show ?case
  proof (cases "cx = x \<and> cy = y")
    case True
    have notin: "(x, y) \<notin> set (map (\<lambda>(cx, cy, d). (cx, cy)) cells)"
      using Cons.prems(1) True by (simp add: c)
    then have "\<forall>k. (x, y, k) \<notin> set cells" by force
    then have "depths_at cells x y = []"
      by (auto simp: depths_at_def filter_empty_conv)
    moreover have "cd = d"
      using Cons.prems(2) \<open>\<forall>k. (x, y, k) \<notin> set cells\<close> True by (auto simp: c)
    ultimately show ?thesis
      using True by (simp add: c depths_at_Cons)
  next
    case False
    then have "(x, y, d) \<in> set cells"
      using Cons.prems(2) by (auto simp: c)
    then have "depths_at cells x y = [d]"
      using Cons.IH Cons.prems(1) by simp
    then show ?thesis
      using False by (simp add: c depths_at_Cons)
  qed
qed

lemma draw_edge_cell:
  assumes "well_shaped r" "r_depth_testing r" "in_bounds r x y" "(x, y, d) \<in> set (edge_cells e)"
  shows "\<exists>r'. draw_edge r e = Some r' \<and> same_frame r r'
           \<and> pix r' x y = zwrite (pe_color e) (pix r x y) d"
proof -
  define x0 y0 x1 y1 where "x0 = py_int (pv_screen_x (pe_v1 e))"
    and "y0 = py_int (pv_screen_y (pe_v1 e))"
    and "x1 = py_int (pv_screen_x (pe_v2 e))"
    and "y1 = py_int (pv_screen_y (pe_v2 e))"
  define b where "b = make_stepper x0 y0 x1 y1"
  define ms where "ms = max (b_dx b) (b_dy b) + 1"
  have ec: "edge_cells e = edge_cells_from b e ms 0 x0 y0 (b_dx b - b_dy b)"
    by (simp add: edge_cells_def Let_def b_def ms_def x0_def y0_def x1_def y1_def)
  have de: "draw_edge r e = draw_edge_loop b e ms r 0 x0 y0 (b_dx b - b_dy b)"
    by (simp add: draw_edge_def Let_def b_def ms_def x0_def y0_def x1_def y1_def)
  from draw_edge_loop_ok [OF assms(1) assms(2), of b e ms 0 x0 y0 "b_dx b - b_dy b"]
  obtain r' where
    r': "draw_edge_loop b e ms r 0 x0 y0 (b_dx b - b_dy b) = Some r'" "same_frame r r'"
      "\<forall>px py. in_bounds r px py \<longrightarrow>
          pix r' px py = foldl (zwrite (pe_color e)) (pix r px py)
                           (depths_at (edge_cells_from b e ms 0 x0 y0 (b_dx b - b_dy b)) px py)"
    by blast
  have "depths_at (edge_cells e) x y = [d]"
    by (rule depths_at_unique [OF edge_cells_distinct assms(4)])
  then have "pix r' x y = zwrite (pe_color e) (pix r x y) d"
    using r'(3) assms(3) by (simp add: ec)
  then show ?thesis
    using r'(1) r'(2) by (simp add: de)
qed

text \<open>
  Claim C2.  With depth testing on, let two projected edges both pass through a cell
  inside the grid, one with interpolated depth 3 there and the other with 7, and let the
  depth stored in the cell before the two draws be greater than 3 (after \<open>clear\<close> it is
  infinite).  Then both draws return in either order, and after both the colour of the
  cell is the colour of the depth-3 edge.
\<close>

theorem nearer_edge_wins:
  assumes "well_shaped r" "r_depth_testing r" "in_bounds r x y"
    and "(x, y, 3) \<in> set (edge_cells ea)" "(x, y, 7) \<in> set (edge_cells eb)"
    and "\<exists>stored. get_cell (r_depth_buffer r) y x = Some stored \<and> depth_lt 3 stored"
  shows "\<exists>ra rab rb rba.
           draw_edge r ea = Some ra \<and> draw_edge ra eb = Some rab
         \<and> draw_edge r eb = Some rb \<and> draw_edge rb ea = Some rba
         \<and> get_cell (r_color_buffer rab) y x = Some (Some (pe_color ea))
         \<and> get_cell (r_color_buffer rba) y x = Some (Some (pe_color ea))"
proof -
  from assms(6) obtain stored where
    st: "get_cell (r_depth_buffer r) y x = Some stored" "depth_lt 3 stored"
    by blast
  define c0 where "c0 = get_cell (r_color_buffer r) y x"
  have p0: "pix r x y = (Some stored, c0)"
    using st(1) by (simp add: pix_def c0_def)
  text \<open>The depth-3 edge first, then the depth-7 edge.\<close>
  from draw_edge_cell [OF assms(1) assms(2) assms(3) assms(4)] obtain ra where
    ra: "draw_edge r ea = Some ra" "same_frame r ra"
      "pix ra x y = zwrite (pe_color ea) (pix r x y) 3"
    by blast
  have pa: "pix ra x y = (Some (Finite 3), Some (Some (pe_color ea)))"
    using ra(3) st(2) by (simp add: p0 zwrite_def)
  have wa: "well_shaped ra" "r_depth_testing ra" "in_bounds ra x y"
    using ra(2) assms(2) assms(3) by (simp_all add: same_frame_def in_bounds_def)
  from draw_edge_cell [OF wa assms(5)] obtain rab where
    rab: "draw_edge ra eb = Some rab" "pix rab x y = zwrite (pe_color eb) (pix ra x y) 7"
    by blast
  have pab: "pix rab x y = (Some (Finite 3), Some (Some (pe_color ea)))"
    using rab(2) by (simp add: pa zwrite_def)
  text \<open>The depth-7 edge first, then the depth-3 edge.\<close>
  from draw_edge_cell [OF assms(1) assms(2) assms(3) assms(5)] obtain rb where
    rb: "draw_edge r eb = Some rb" "same_frame r rb"
      "pix rb x y = zwrite (pe_color eb) (pix r x y) 7"
    by blast
  have "\<exists>s1 c1. pix rb x y = (Some s1, c1) \<and> depth_lt 3 s1"
    using rb(3) st(2) by (auto simp: p0 zwrite_def)
  then obtain s1 c1 where pb: "pix rb x y = (Some s1, c1)" "depth_lt 3 s1"
    by blast
  have wb: "well_shaped rb" "r_depth_testing rb" "in_bounds rb x y"
    using rb(2) assms(2) assms(3) by (simp_all add: same_frame_def in_bounds_def)
  from draw_edge_cell [OF wb assms(4)] obtain rba where
    rba: "draw_edge rb ea = Some rba" "pix rba x y = zwrite (pe_color ea) (pix rb x y) 3"
    by blast
  have pba: "pix rba x y = (Some (Finite 3), Some (Some (pe_color ea)))"
    using rba(2) pb by (simp add: zwrite_def)
  show ?thesis
    using ra(1) rab(1) rb(1) rba(1) pab pba by (auto simp: pix_def)
qed



lemma get_cell_clear:
  assumes "in_bounds r x y"
  shows "get_cell (r_depth_buffer (clear r g col)) y x = Some Infinity"
proof -
  have "0 \<le> x" "x < r_width r" "0 \<le> y" "y < r_height r"
    using assms by (simp_all add: in_bounds_def)
  then show ?thesis
    by (simp add: get_cell_def clear_def)
qed

theorem nearer_edge_wins_witness:
  "well_shaped (new_renderer 4 3) \<and> r_depth_testing (new_renderer 4 3)
   \<and> in_bounds (new_renderer 4 3) 1 1
   \<and> (1, 1, 3) \<in> set (edge_cells
        \<lparr>pe_v1 = \<lparr>pv_screen_x = 1, pv_screen_y = 1, pv_depth = 3, pv_original_idx = 0, pv_visible = True\<rparr>,
         pe_v2 = \<lparr>pv_screen_x = 1, pv_screen_y = 1, pv_depth = 3, pv_original_idx = 1, pv_visible = True\<rparr>,
         pe_color = (255, 0, 0), pe_depth = 3, pe_thickness = 1, pe_style = ''solid''\<rparr>)
   \<and> (1, 1, 7) \<in> set (edge_cells
        \<lparr>pe_v1 = \<lparr>pv_screen_x = 0, pv_screen_y = 1, pv_depth = 7, pv_original_idx = 2, pv_visible = True\<rparr>,
         pe_v2 = \<lparr>pv_screen_x = 2, pv_screen_y = 1, pv_depth = 7, pv_original_idx = 3, pv_visible = True\<rparr>,
         pe_color = (0, 0, 255), pe_depth = 7, pe_thickness = 1, pe_style = ''solid''\<rparr>)
   \<and> (\<exists>ra rab rb rba.
         draw_edge (new_renderer 4 3)
           \<lparr>pe_v1 = \<lparr>pv_screen_x = 1, pv_screen_y = 1, pv_depth = 3, pv_original_idx = 0, pv_visible = True\<rparr>,
            pe_v2 = \<lparr>pv_screen_x = 1, pv_screen_y = 1, pv_depth = 3, pv_original_idx = 1, pv_visible = True\<rparr>,
            pe_color = (255, 0, 0), pe_depth = 3, pe_thickness = 1, pe_style = ''solid''\<rparr> = Some ra
       \<and> draw_edge ra
           \<lparr>pe_v1 = \<lparr>pv_screen_x = 0, pv_screen_y = 1, pv_depth = 7, pv_original_idx = 2, pv_visible = True\<rparr>,
            pe_v2 = \<lparr>pv_screen_x = 2, pv_screen_y = 1, pv_depth = 7, pv_original_idx = 3, pv_visible = True\<rparr>,
            pe_color = (0, 0, 255), pe_depth = 7, pe_thickness = 1, pe_style = ''solid''\<rparr> = Some rab
       \<and> draw_edge (new_renderer 4 3)
           \<lparr>pe_v1 = \<lparr>pv_screen_x = 0, pv_screen_y = 1, pv_depth = 7, pv_original_idx = 2, pv_visible = True\<rparr>,
            pe_v2 = \<lparr>pv_screen_x = 2, pv_screen_y = 1, pv_depth = 7, pv_original_idx = 3, pv_visible = True\<rparr>,
            pe_color = (0, 0, 255), pe_depth = 7, pe_thickness = 1, pe_style = ''solid''\<rparr> = Some rb
       \<and> draw_edge rb
           \<lparr>pe_v1 = \<lparr>pv_screen_x = 1, pv_screen_y = 1, pv_depth = 3, pv_original_idx = 0, pv_visible = True\<rparr>,
            pe_v2 = \<lparr>pv_screen_x = 1, pv_screen_y = 1, pv_depth = 3, pv_original_idx = 1, pv_visible = True\<rparr>,
            pe_color = (255, 0, 0), pe_depth = 3, pe_thickness = 1, pe_style = ''solid''\<rparr> = Some rba
       \<and> get_cell (r_color_buffer rab) 1 1 = Some (Some (255, 0, 0))
       \<and> get_cell (r_color_buffer rba) 1 1 = Some (Some (255, 0, 0)))"
proof -
  define ea where "ea =
        \<lparr>pe_v1 = \<lparr>pv_screen_x = 1, pv_screen_y = 1, pv_depth = 3, pv_original_idx = 0, pv_visible = True\<rparr>,
         pe_v2 = \<lparr>pv_screen_x = 1, pv_screen_y = 1, pv_depth = 3, pv_original_idx = 1, pv_visible = True\<rparr>,
         pe_color = (255, 0, 0), pe_depth = 3, pe_thickness = 1, pe_style = ''solid''\<rparr>"
  define eb where "eb =
        \<lparr>pe_v1 = \<lparr>pv_screen_x = 0, pv_screen_y = 1, pv_depth = 7, pv_original_idx = 2, pv_visible = True\<rparr>,
         pe_v2 = \<lparr>pv_screen_x = 2, pv_screen_y = 1, pv_depth = 7, pv_original_idx = 3, pv_visible = True\<rparr>,
         pe_color = (0, 0, 255), pe_depth = 7, pe_thickness = 1, pe_style = ''solid''\<rparr>"
  have ws: "well_shaped (new_renderer 4 3)"
    by (rule well_shaped_new_renderer)
  have dt: "r_depth_testing (new_renderer 4 3)"
    by (simp add: new_renderer_def clear_def)
  have ib: "in_bounds (new_renderer 4 3) 1 1"
    by (simp add: in_bounds_def new_renderer_def clear_def)
  have ca: "edge_cells ea = [(1, 1, 3)]"
    by (simp add: edge_cells_def ea_def py_int_def make_stepper_def edge_cells_from.simps
        edge_depth_at_def lerp_def Let_def)
  have cb: "edge_cells eb = [(0, 1, 7), (1, 1, 7), (2, 1, 7)]"
    by (simp add: edge_cells_def eb_def py_int_def make_stepper_def edge_cells_from.simps
        edge_depth_at_def lerp_def step_x_def step_y_def step_err_def Let_def)
  have ina: "(1, 1, 3) \<in> set (edge_cells ea)" by (simp add: ca)
  have inb: "(1, 1, 7) \<in> set (edge_cells eb)" by (simp add: cb)
  have "get_cell (r_depth_buffer (new_renderer 4 3)) 1 1 = Some Infinity"
    unfolding new_renderer_def by (rule get_cell_clear) (simp add: in_bounds_def)
  then have far: "\<exists>stored. get_cell (r_depth_buffer (new_renderer 4 3)) 1 1 = Some stored
                    \<and> depth_lt 3 stored"
    by simp
  have col: "pe_color ea = (255, 0, 0)" by (simp add: ea_def)
  show ?thesis
    using nearer_edge_wins [OF ws dt ib ina inb far] ws dt ib ina inb
    unfolding col unfolding ea_def eb_def by blast
qed



section \<open>Transform: marking\<close>

lemma marks_refl: "marks s s"
  by (simp add: marks_def)

lemma marks_eq: "marks s s' \<Longrightarrow> s' m = (s m)\<lparr>t_world_dirty := t_world_dirty (s' m)\<rparr>"
  by (simp add: marks_def)

lemma marks_mono: "marks s s' \<Longrightarrow> t_world_dirty (s m) \<Longrightarrow> t_world_dirty (s' m)"
  by (simp add: marks_def)

lemma marks_new:
  "marks s s' \<Longrightarrow> t_world_dirty (s' m) \<Longrightarrow> \<not> t_world_dirty (s m) \<Longrightarrow> c \<in> set (t_children (s m))
   \<Longrightarrow> t_world_dirty (s' c)"
  by (simp add: marks_def)

lemma marks_fields:
  assumes "marks s s'"
  shows "t_children (s' m) = t_children (s m)" "t_parent (s' m) = t_parent (s m)"
    "t_position (s' m) = t_position (s m)" "t_rotation (s' m) = t_rotation (s m)"
    "t_scale (s' m) = t_scale (s m)" "t_local_matrix (s' m) = t_local_matrix (s m)"
    "t_world_matrix (s' m) = t_world_matrix (s m)" "t_local_dirty (s' m) = t_local_dirty (s m)"
proof -
  have e: "s' m = (s m)\<lparr>t_world_dirty := t_world_dirty (s' m)\<rparr>"
    by (rule marks_eq [OF assms])
  show "t_children (s' m) = t_children (s m)" by (subst e) simp
  show "t_parent (s' m) = t_parent (s m)" by (subst e) simp
  show "t_position (s' m) = t_position (s m)" by (subst e) simp
  show "t_rotation (s' m) = t_rotation (s m)" by (subst e) simp
  show "t_scale (s' m) = t_scale (s m)" by (subst e) simp
  show "t_local_matrix (s' m) = t_local_matrix (s m)" by (subst e) simp
  show "t_world_matrix (s' m) = t_world_matrix (s m)" by (subst e) simp
  show "t_local_dirty (s' m) = t_local_dirty (s m)" by (subst e) simp
qed

lemma marks_trans:
  assumes "marks s s1" "marks s1 s2"
  shows "marks s s2"
  unfolding marks_def
proof (intro allI conjI impI)
  fix m
  have "s2 m = (s1 m)\<lparr>t_world_dirty := t_world_dirty (s2 m)\<rparr>"
    by (rule marks_eq [OF assms(2)])
  also have "s1 m = (s m)\<lparr>t_world_dirty := t_world_dirty (s1 m)\<rparr>"
    by (rule marks_eq [OF assms(1)])
  finally show "s2 m = (s m)\<lparr>t_world_dirty := t_world_dirty (s2 m)\<rparr>"
    by simp
next
  fix m
  assume "t_world_dirty (s m)"
  then show "t_world_dirty (s2 m)"
    using marks_mono [OF assms(1)] marks_mono [OF assms(2)] by blast
next
  fix m
  assume a: "t_world_dirty (s2 m) \<and> \<not> t_world_dirty (s m)"
  show "\<forall>c\<in>set (t_children (s m)). t_world_dirty (s2 c)"
  proof (cases "t_world_dirty (s1 m)")
    case True
    then have "\<forall>c\<in>set (t_children (s m)). t_world_dirty (s1 c)"
      using a marks_new [OF assms(1)] by blast
    then show ?thesis
      using marks_mono [OF assms(2)] by blast
  next
    case False
    then have "\<forall>c\<in>set (t_children (s1 m)). t_world_dirty (s2 c)"
      using a marks_new [OF assms(2)] by blast
    then show ?thesis
      using marks_fields(1) [OF assms(1)] by simp
  qed
qed

lemma marks_set_flag:
  assumes "marks (s(n := (s n)\<lparr>t_world_dirty := True\<rparr>)) s'"
    and "\<forall>c \<in> set (t_children (s n)). t_world_dirty (s' c)"
  shows "marks s s' \<and> t_world_dirty (s' n)"
proof -
  let ?s0 = "s(n := (s n)\<lparr>t_world_dirty := True\<rparr>)"
  have n_dirty: "t_world_dirty (s' n)"
    using marks_mono [OF assms(1), of n] by simp
  have "marks s s'"
    unfolding marks_def
  proof (intro allI conjI impI)
    fix m
    have "s' m = (?s0 m)\<lparr>t_world_dirty := t_world_dirty (s' m)\<rparr>"
      by (rule marks_eq [OF assms(1)])
    then show "s' m = (s m)\<lparr>t_world_dirty := t_world_dirty (s' m)\<rparr>"
      by (cases "m = n") simp_all
  next
    fix m
    assume "t_world_dirty (s m)"
    then have "t_world_dirty (?s0 m)" by simp
    then show "t_world_dirty (s' m)"
      by (rule marks_mono [OF assms(1)])
  next
    fix m
    assume a: "t_world_dirty (s' m) \<and> \<not> t_world_dirty (s m)"
    show "\<forall>c\<in>set (t_children (s m)). t_world_dirty (s' c)"
    proof (cases "m = n")
      case True
      then show ?thesis using assms(2) by simp
    next
      case False
      then have "\<not> t_world_dirty (?s0 m)" "t_children (?s0 m) = t_children (s m)"
        using a by simp_all
      then show ?thesis
        using a marks_new [OF assms(1), of m] by metis
    qed
  qed
  then show ?thesis using n_dirty by simp
qed

lemma mark_spec:
  "mark_world_dirty k s n = Some s' \<Longrightarrow> marks s s' \<and> t_world_dirty (s' n)"
  "mark_children k s cs = Some s' \<Longrightarrow> marks s s' \<and> (\<forall>c \<in> set cs. t_world_dirty (s' c))"
proof (induction k s n and k s cs arbitrary: s' and s' rule: mark_world_dirty_mark_children.induct)
  case (1 s n)
  then show ?case by simp
next
  case (2 k s n)
  have run: "mark_children k (s(n := (s n)\<lparr>t_world_dirty := True\<rparr>)) (t_children (s n)) = Some s'"
    using "2.prems" by simp
  show ?case
    using "2.IH" [OF run] marks_set_flag by blast
next
  case (3 k s)
  then show ?case by (simp add: marks_refl)
next
  case (4 k s c cs)
  from "4.prems" obtain s1 where
    s1: "mark_world_dirty k s c = Some s1" "mark_children k s1 cs = Some s'"
    by (auto split: option.splits)
  have a: "marks s s1" "t_world_dirty (s1 c)"
    using "4.IH"(1) [OF s1(1)] by blast+
  have b: "marks s1 s'" "\<forall>c \<in> set cs. t_world_dirty (s' c)"
    using "4.IH"(2) [OF s1(1) s1(2)] by blast+
  have "t_world_dirty (s' c)"
    using a(2) marks_mono [OF b(1)] by blast
  then show ?case
    using marks_trans [OF a(1) b(1)] b(2) by simp
qed

text \<open>Enough depth for the recursion: more than the levels below the node.\<close>

lemma mark_returns:
  "(\<forall>m. d m \<le> bound) \<Longrightarrow> (\<forall>p c. c \<in> set (t_children (s p)) \<longrightarrow> d p < d c) \<Longrightarrow> bound - d n < k
   \<Longrightarrow> \<exists>s'. mark_world_dirty k s n = Some s'"
  "(\<forall>m. d m \<le> bound) \<Longrightarrow> (\<forall>p c. c \<in> set (t_children (s p)) \<longrightarrow> d p < d c)
   \<Longrightarrow> (\<forall>c \<in> set cs. bound - d c < k)
   \<Longrightarrow> \<exists>s'. mark_children k s cs = Some s'"
proof (induction k s n and k s cs rule: mark_world_dirty_mark_children.induct)
  case (1 s n)
  then show ?case by simp
next
  case (2 k s n)
  have ch: "\<forall>p c. c \<in> set (t_children ((s(n := (s n)\<lparr>t_world_dirty := True\<rparr>)) p)) \<longrightarrow> d p < d c"
    using "2.prems"(2) by simp
  have "\<forall>c \<in> set (t_children (s n)). bound - d c < k"
  proof
    fix c
    assume "c \<in> set (t_children (s n))"
    then have "d n < d c" using "2.prems"(2) by blast
    moreover have "d c \<le> bound" using "2.prems"(1) by blast
    ultimately show "bound - d c < k" using "2.prems"(3) by linarith
  qed
  from "2.IH" [OF "2.prems"(1) ch this] obtain s' where
    "mark_children k (s(n := (s n)\<lparr>t_world_dirty := True\<rparr>)) (t_children (s n)) = Some s'"
    by blast
  then have "mark_world_dirty (Suc k) s n = Some s'" by simp
  then show ?case by blast
next
  case (3 k s)
  then show ?case by simp
next
  case (4 k s c cs)
  have "bound - d c < k" using "4.prems"(3) by simp
  from "4.IH"(1) [OF "4.prems"(1) "4.prems"(2) this] obtain s1 where
    s1: "mark_world_dirty k s c = Some s1"
    by blast
  have "marks s s1" using mark_spec(1) [OF s1] by blast
  then have ch: "\<forall>p c. c \<in> set (t_children (s1 p)) \<longrightarrow> d p < d c"
    using "4.prems"(2) marks_fields(1) by metis
  have rest: "\<forall>c \<in> set cs. bound - d c < k" using "4.prems"(3) by simp
  from "4.IH"(2) [OF s1 "4.prems"(1) ch rest] obtain s' where
    "mark_children k s1 cs = Some s'"
    by blast
  then have "mark_children k s (c # cs) = Some s'" using s1 by simp
  then show ?case by blast
qed



lemma marks_links_ok: "marks s s' \<Longrightarrow> links_ok s \<Longrightarrow> links_ok s'"
  by (simp add: links_ok_def marks_fields)

lemma marks_ranked: "marks s s' \<Longrightarrow> ranked s d bound \<Longrightarrow> ranked s' d bound"
  by (simp add: ranked_def marks_fields)

lemma marks_local_trs: "marks s s' \<Longrightarrow> local_trs s' m = local_trs s m"
  by (simp add: local_trs_def marks_fields)

lemma marks_world_clean: "marks s s' \<Longrightarrow> world_clean s' m \<Longrightarrow> world_clean s m"
  using marks_mono [of s s' m] by (auto simp: world_clean_def marks_fields)

lemma marks_caches_ok:
  assumes links: "links_ok s1" and mk: "marks s1 s'" and nd: "t_world_dirty (s' n)"
    and loc: "\<forall>m. local_clean s1 m \<longrightarrow> t_local_matrix (s1 m) = Some (local_trs s1 m)"
    and wor: "\<forall>m. m \<noteq> n \<longrightarrow> world_clean s1 m \<longrightarrow>
               (case t_parent (s1 m) of
                  None \<Rightarrow> t_world_matrix (s1 m) = Some (local_trs s1 m)
                | Some p \<Rightarrow> world_clean s1 p
                    \<and> t_world_matrix (s1 m)
                      = Some (mat_mul (the (t_world_matrix (s1 p))) (local_trs s1 m)))"
  shows "caches_ok s'"
  unfolding caches_ok_def
proof (intro allI conjI impI)
  fix m
  assume "local_clean s' m"
  then have "local_clean s1 m"
    by (simp add: local_clean_def marks_fields [OF mk])
  then show "t_local_matrix (s' m) = Some (local_trs s' m)"
    using loc by (simp add: marks_fields [OF mk] marks_local_trs [OF mk])
next
  fix m
  assume cl: "world_clean s' m"
  then have ne: "m \<noteq> n"
    using nd by (auto simp: world_clean_def)
  have cl1: "world_clean s1 m"
    by (rule marks_world_clean [OF mk cl])
  show "case t_parent (s' m) of
          None \<Rightarrow> t_world_matrix (s' m) = Some (local_trs s' m)
        | Some p \<Rightarrow> world_clean s' p
            \<and> t_world_matrix (s' m) = Some (mat_mul (the (t_world_matrix (s' p))) (local_trs s' m))"
  proof (cases "t_parent (s1 m)")
    case None
    then show ?thesis
      using wor [rule_format, OF ne cl1] by (simp add: marks_fields [OF mk] marks_local_trs [OF mk])
  next
    case (Some p)
    have old: "world_clean s1 p"
      "t_world_matrix (s1 m) = Some (mat_mul (the (t_world_matrix (s1 p))) (local_trs s1 m))"
      using wor [rule_format, OF ne cl1] Some by auto
    have child: "m \<in> set (t_children (s1 p))"
      using links Some by (simp add: links_ok_def)
    have "\<not> t_world_dirty (s' p)"
    proof
      assume d: "t_world_dirty (s' p)"
      have "\<not> t_world_dirty (s1 p)" using old(1) by (simp add: world_clean_def)
      from marks_new [OF mk d this child] show False
        using cl by (simp add: world_clean_def)
    qed
    then have "world_clean s' p"
      using old(1) by (simp add: world_clean_def marks_fields [OF mk])
    then show ?thesis
      using old(2) Some by (simp add: marks_fields [OF mk] marks_local_trs [OF mk])
  qed
qed

text \<open>A change of position, rotation or scale of one node, followed by \<open>_mark_dirty\<close>.\<close>

lemma mark_dirty_inv:
  assumes inv: "tree_inv s d bound"
    and s0: "s0 = s(n := (s n)\<lparr>t_position := pos, t_rotation := rot, t_scale := sc\<rparr>)"
    and run: "mark_dirty k s0 n = Some s'"
  shows "tree_inv s' d bound"
proof -
  let ?s1 = "s0(n := (s0 n)\<lparr>t_local_dirty := True\<rparr>)"
  have mk: "marks ?s1 s'" "t_world_dirty (s' n)"
    using mark_spec(1) [of k ?s1 n s'] run by (simp_all add: mark_dirty_def)
  have links: "links_ok ?s1"
    using inv by (simp add: tree_inv_def links_ok_def s0)
  have rk: "ranked ?s1 d bound"
    using inv by (simp add: tree_inv_def ranked_def s0)
  have c: "caches_ok s" using inv by (simp add: tree_inv_def)
  have trs_other: "m \<noteq> n \<Longrightarrow> local_trs ?s1 m = local_trs s m" for m
    by (simp add: local_trs_def s0)
  have loc: "\<forall>m. local_clean ?s1 m \<longrightarrow> t_local_matrix (?s1 m) = Some (local_trs ?s1 m)"
  proof (intro allI impI)
    fix m
    assume a: "local_clean ?s1 m"
    then have ne: "m \<noteq> n" by (auto simp: local_clean_def)
    then have "local_clean s m" using a by (simp add: local_clean_def s0)
    then show "t_local_matrix (?s1 m) = Some (local_trs ?s1 m)"
      using c ne by (simp add: caches_ok_def trs_other) (simp add: s0)
  qed
  have wc: "world_clean ?s1 m = world_clean s m" for m
    by (simp add: world_clean_def s0)
  have wm: "t_world_matrix (?s1 m) = t_world_matrix (s m)" for m
    by (simp add: s0)
  have par: "t_parent (?s1 m) = t_parent (s m)" for m
    by (simp add: s0)
  have wor: "\<forall>m. m \<noteq> n \<longrightarrow> world_clean ?s1 m \<longrightarrow>
               (case t_parent (?s1 m) of
                  None \<Rightarrow> t_world_matrix (?s1 m) = Some (local_trs ?s1 m)
                | Some p \<Rightarrow> world_clean ?s1 p
                    \<and> t_world_matrix (?s1 m)
                      = Some (mat_mul (the (t_world_matrix (?s1 p))) (local_trs ?s1 m)))"
  proof (intro allI impI)
    fix m
    assume ne: "m \<noteq> n" and "world_clean ?s1 m"
    then have "world_clean s m" by (simp only: wc)
    then have "case t_parent (s m) of
                  None \<Rightarrow> t_world_matrix (s m) = Some (local_trs s m)
                | Some p \<Rightarrow> world_clean s p
                    \<and> t_world_matrix (s m) = Some (mat_mul (the (t_world_matrix (s p))) (local_trs s m))"
      using c by (simp add: caches_ok_def)
    then show "case t_parent (?s1 m) of
                  None \<Rightarrow> t_world_matrix (?s1 m) = Some (local_trs ?s1 m)
                | Some p \<Rightarrow> world_clean ?s1 p
                    \<and> t_world_matrix (?s1 m)
                      = Some (mat_mul (the (t_world_matrix (?s1 p))) (local_trs ?s1 m))"
      unfolding wc wm par trs_other [OF ne] .
  qed
  have "caches_ok s'"
    by (rule marks_caches_ok [OF links mk loc wor])
  then show ?thesis
    using marks_links_ok [OF mk(1) links] marks_ranked [OF mk(1) rk] by (simp add: tree_inv_def)
qed

lemma set_position_inv:
  assumes "tree_inv s d bound" "set_position k s n v = Some s'"
  shows "tree_inv s' d bound"
proof -
  have "s(n := (s n)\<lparr>t_position := Vector3 (vx v) (vy v) (vz v)\<rparr>)
        = s(n := (s n)\<lparr>t_position := Vector3 (vx v) (vy v) (vz v),
                        t_rotation := t_rotation (s n), t_scale := t_scale (s n)\<rparr>)"
    by simp
  then show ?thesis
    using mark_dirty_inv [OF assms(1) refl, where pos = "Vector3 (vx v) (vy v) (vz v)"
        and rot = "t_rotation (s n)" and sc = "t_scale (s n)" and k = k and n = n and s' = s']
      assms(2)
    by (simp add: set_position_def)
qed

lemma set_rotation_inv:
  assumes "tree_inv s d bound" "set_rotation k s n q = Some s'"
  shows "tree_inv s' d bound"
proof -
  have "s(n := (s n)\<lparr>t_rotation := Quaternion (qx q) (qy q) (qz q) (qw q)\<rparr>)
        = s(n := (s n)\<lparr>t_position := t_position (s n),
                        t_rotation := Quaternion (qx q) (qy q) (qz q) (qw q),
                        t_scale := t_scale (s n)\<rparr>)"
    by simp
  then show ?thesis
    using mark_dirty_inv [OF assms(1) refl, where pos = "t_position (s n)"
        and rot = "Quaternion (qx q) (qy q) (qz q) (qw q)" and sc = "t_scale (s n)"
        and k = k and n = n and s' = s'] assms(2)
    by (simp add: set_rotation_def)
qed

lemma set_scale_inv:
  assumes "tree_inv s d bound" "set_scale k s n v = Some s'"
  shows "tree_inv s' d bound"
proof -
  have "s(n := (s n)\<lparr>t_scale := Vector3 (vx v) (vy v) (vz v)\<rparr>)
        = s(n := (s n)\<lparr>t_position := t_position (s n), t_rotation := t_rotation (s n),
                        t_scale := Vector3 (vx v) (vy v) (vz v)\<rparr>)"
    by simp
  then show ?thesis
    using mark_dirty_inv [OF assms(1) refl, where pos = "t_position (s n)"
        and rot = "t_rotation (s n)" and sc = "Vector3 (vx v) (vy v) (vz v)"
        and k = k and n = n and s' = s'] assms(2)
    by (simp add: set_scale_def)
qed



section \<open>Transform: reading the matrices\<close>

lemma same_shape_refl: "same_shape s s"
  by (simp add: same_shape_def)

lemma same_shape_trans: "same_shape s s1 \<Longrightarrow> same_shape s1 s2 \<Longrightarrow> same_shape s s2"
  by (simp add: same_shape_def)

lemma same_shape_local_trs: "same_shape s s' \<Longrightarrow> local_trs s' m = local_trs s m"
  by (simp add: same_shape_def local_trs_def)

lemma same_shape_links_ok: "same_shape s s' \<Longrightarrow> links_ok s \<Longrightarrow> links_ok s'"
  by (simp add: same_shape_def links_ok_def)

lemma same_shape_ranked: "same_shape s s' \<Longrightarrow> ranked s d bound \<Longrightarrow> ranked s' d bound"
  by (simp add: same_shape_def ranked_def)

lemma ranked_parent_differs: "ranked s d bound \<Longrightarrow> t_parent (s n) = Some p \<Longrightarrow> p \<noteq> n"
  by (auto simp: ranked_def)

lemma local_matrix_read:
  assumes inv: "tree_inv s d bound" and run: "local_matrix s n = (l, s')"
  shows "tree_inv s' d bound" "l = local_trs s n" "same_shape s s'" "local_clean s' n"
    "\<forall>j. j \<noteq> n \<longrightarrow> s' j = s j"
    "t_world_matrix (s' n) = t_world_matrix (s n)" "t_world_dirty (s' n) = t_world_dirty (s n)"
proof -
  have c: "caches_ok s" using inv by (simp add: tree_inv_def)
  show l: "l = local_trs s n"
  proof (cases "local_clean s n")
    case True
    then have "t_local_matrix (s n) = Some (local_trs s n)"
      using c by (simp add: caches_ok_def)
    then show ?thesis
      using run True by (auto simp: local_matrix_def local_clean_def)
  next
    case False
    then show ?thesis
      using run by (auto simp: local_matrix_def local_clean_def local_trs_def Let_def)
  qed
  have s': "s' = (if local_clean s n then s
                  else s(n := (s n)\<lparr>t_local_matrix := Some (local_trs s n), t_local_dirty := False\<rparr>))"
    using run by (auto simp: local_matrix_def local_clean_def local_trs_def Let_def)
  show sh: "same_shape s s'"
    by (simp add: s' same_shape_def)
  show "local_clean s' n"
    by (simp add: s' local_clean_def)
  show "\<forall>j. j \<noteq> n \<longrightarrow> s' j = s j"
    by (simp add: s')
  show wm: "t_world_matrix (s' n) = t_world_matrix (s n)"
    and wd: "t_world_dirty (s' n) = t_world_dirty (s n)"
    by (simp_all add: s')
  have wms: "t_world_matrix (s' m) = t_world_matrix (s m)" for m
    by (simp add: s')
  have wcs: "world_clean s' m = world_clean s m" for m
    by (simp add: s' world_clean_def)
  have pars: "t_parent (s' m) = t_parent (s m)" for m
    by (simp add: s')
  have "caches_ok s'"
    unfolding caches_ok_def
  proof (intro allI conjI impI)
    fix m
    assume a: "local_clean s' m"
    show "t_local_matrix (s' m) = Some (local_trs s' m)"
    proof (cases "m = n \<and> \<not> local_clean s n")
      case True
      then show ?thesis by (simp add: s' local_trs_def)
    next
      case False
      then have "s' m = s m" by (auto simp: s')
      then show ?thesis
        using a c by (simp add: caches_ok_def local_clean_def local_trs_def)
    qed
  next
    fix m
    assume "world_clean s' m"
    then have "world_clean s m" by (simp only: wcs)
    then have "case t_parent (s m) of
                  None \<Rightarrow> t_world_matrix (s m) = Some (local_trs s m)
                | Some p \<Rightarrow> world_clean s p
                    \<and> t_world_matrix (s m) = Some (mat_mul (the (t_world_matrix (s p))) (local_trs s m))"
      using c by (simp add: caches_ok_def)
    then show "case t_parent (s' m) of
                  None \<Rightarrow> t_world_matrix (s' m) = Some (local_trs s' m)
                | Some p \<Rightarrow> world_clean s' p
                    \<and> t_world_matrix (s' m) = Some (mat_mul (the (t_world_matrix (s' p))) (local_trs s' m))"
      unfolding wcs wms pars same_shape_local_trs [OF sh] .
  qed
  then show "tree_inv s' d bound"
    using inv same_shape_links_ok [OF sh] same_shape_ranked [OF sh] by (simp add: tree_inv_def)
qed

text \<open>Storing the world matrix of a node that was not clean.\<close>

lemma local_trs_world_upd:
  "local_trs (s(n := (s n)\<lparr>t_world_matrix := a, t_world_dirty := b\<rparr>)) m = local_trs s m"
  by (simp add: local_trs_def)

lemma world_store_inv:
  assumes inv: "tree_inv s d bound" and nc: "\<not> world_clean s n"
    and w: "case t_parent (s n) of
              None \<Rightarrow> w = local_trs s n
            | Some p \<Rightarrow> world_clean s p \<and> w = mat_mul (the (t_world_matrix (s p))) (local_trs s n)"
  shows "tree_inv (s(n := (s n)\<lparr>t_world_matrix := Some w, t_world_dirty := False\<rparr>)) d bound"
proof -
  let ?s = "s(n := (s n)\<lparr>t_world_matrix := Some w, t_world_dirty := False\<rparr>)"
  have c: "caches_ok s" and rk: "ranked s d bound" and li: "links_ok s"
    using inv by (simp_all add: tree_inv_def)
  have sh: "same_shape s ?s" by (simp add: same_shape_def)
  note tr = local_trs_world_upd
  have "caches_ok ?s"
    unfolding caches_ok_def
  proof (intro allI conjI impI)
    fix m
    assume "local_clean ?s m"
    then have "local_clean s m" by (auto simp: local_clean_def split: if_splits)
    then have "t_local_matrix (s m) = Some (local_trs s m)"
      using c by (simp add: caches_ok_def)
    then show "t_local_matrix (?s m) = Some (local_trs ?s m)"
      by (auto simp: tr)
  next
    fix m
    assume cl: "world_clean ?s m"
    show "case t_parent (?s m) of
            None \<Rightarrow> t_world_matrix (?s m) = Some (local_trs ?s m)
          | Some p \<Rightarrow> world_clean ?s p
              \<and> t_world_matrix (?s m) = Some (mat_mul (the (t_world_matrix (?s p))) (local_trs ?s m))"
    proof (cases "m = n")
      case True
      show ?thesis
      proof (cases "t_parent (s n)")
        case None
        then show ?thesis using w True by (simp add: tr)
      next
        case (Some p)
        then have "p \<noteq> n" using ranked_parent_differs [OF rk] by blast
        then show ?thesis using w True Some by (simp add: tr world_clean_def)
      qed
    next
      case False
      then have clm: "world_clean s m" using cl by (simp add: world_clean_def)
      then have old: "case t_parent (s m) of
                  None \<Rightarrow> t_world_matrix (s m) = Some (local_trs s m)
                | Some p \<Rightarrow> world_clean s p
                    \<and> t_world_matrix (s m) = Some (mat_mul (the (t_world_matrix (s p))) (local_trs s m))"
        using c by (simp add: caches_ok_def)
      show ?thesis
      proof (cases "t_parent (s m)")
        case None
        then show ?thesis using old False by (simp add: tr)
      next
        case (Some p)
        then have "world_clean s p" using old by simp
        then have "p \<noteq> n" using nc by auto
        then show ?thesis using old False Some by (simp add: tr world_clean_def)
      qed
    qed
  qed
  then show ?thesis
    using li rk same_shape_links_ok [OF sh] same_shape_ranked [OF sh] by (simp add: tree_inv_def)
qed

lemma world_matrix_read:
  assumes "tree_inv s d bound" "d n < k"
  shows "\<exists>w s'. world_matrix k s n = Some (w, s') \<and> tree_inv s' d bound
           \<and> world_clean s' n \<and> t_world_matrix (s' n) = Some w
           \<and> same_shape s s' \<and> (\<forall>j. d n < d j \<longrightarrow> s' j = s j)"
  using assms
proof (induction k arbitrary: s n)
  case 0
  then show ?case by simp
next
  case (Suc k)
  note inv = Suc.prems(1)
  have rk: "ranked s d bound" using inv by (simp add: tree_inv_def)
  show ?case
  proof (cases "world_clean s n")
    case True
    then obtain w where w: "t_world_matrix (s n) = Some w"
      by (auto simp: world_clean_def)
    have "world_matrix (Suc k) s n = Some (w, s)"
      using True w by (simp add: world_clean_def)
    then show ?thesis
      using inv True w by (simp add: same_shape_refl)
  next
    case False
    then have dirty: "t_world_dirty (s n) \<or> t_world_matrix (s n) = None"
      by (simp add: world_clean_def)
    show ?thesis
    proof (cases "t_parent (s n)")
      case None
      obtain l s1 where l: "local_matrix s n = (l, s1)" by (cases "local_matrix s n")
      note r = local_matrix_read [OF inv l]
      let ?s' = "s1(n := (s1 n)\<lparr>t_world_matrix := Some l, t_world_dirty := False\<rparr>)"
      have run: "world_matrix (Suc k) s n = Some (l, ?s')"
        using dirty None l by simp
      have nc1: "\<not> world_clean s1 n"
        using False r(6) r(7) by (simp add: world_clean_def)
      have p1: "t_parent (s1 n) = None"
        using None r(3) by (simp add: same_shape_def)
      have "case t_parent (s1 n) of
              None \<Rightarrow> l = local_trs s1 n
            | Some p \<Rightarrow> world_clean s1 p \<and> l = mat_mul (the (t_world_matrix (s1 p))) (local_trs s1 n)"
        using p1 r(2) same_shape_local_trs [OF r(3)] by simp
      from world_store_inv [OF r(1) nc1 this] have i': "tree_inv ?s' d bound" .
      have sh: "same_shape s ?s'"
        using r(3) by (simp add: same_shape_def)
      have fr: "\<forall>j. d n < d j \<longrightarrow> ?s' j = s j"
        using r(5) by auto
      show ?thesis
        using run i' sh fr by (simp add: world_clean_def)
    next
      case (Some p)
      have dp: "d p < d n" using rk Some by (simp add: ranked_def)
      then have "d p < k" using Suc.prems(2) by simp
      from Suc.IH [OF inv this] obtain pw s1 where
        p: "world_matrix k s p = Some (pw, s1)" "tree_inv s1 d bound" "world_clean s1 p"
          "t_world_matrix (s1 p) = Some pw" "same_shape s s1" "\<forall>j. d p < d j \<longrightarrow> s1 j = s j"
        by blast
      have n1: "s1 n = s n" using p(6) dp by blast
      obtain l s2 where l: "local_matrix s1 n = (l, s2)" by (cases "local_matrix s1 n")
      note r = local_matrix_read [OF p(2) l]
      let ?w = "mat_mul pw l"
      let ?s' = "s2(n := (s2 n)\<lparr>t_world_matrix := Some ?w, t_world_dirty := False\<rparr>)"
      have run: "world_matrix (Suc k) s n = Some (?w, ?s')"
        using dirty Some p(1) l by (simp add: Let_def)
      have pn: "p \<noteq> n" using dp by auto
      have nc2: "\<not> world_clean s2 n"
        using False r(6) r(7) n1 by (simp add: world_clean_def)
      have p2: "t_parent (s2 n) = Some p"
        using Some r(3) n1 by (simp add: same_shape_def)
      have s2p: "s2 p = s1 p" using r(5) pn by simp
      have "case t_parent (s2 n) of
              None \<Rightarrow> ?w = local_trs s2 n
            | Some p \<Rightarrow> world_clean s2 p \<and> ?w = mat_mul (the (t_world_matrix (s2 p))) (local_trs s2 n)"
        using p2 r(2) same_shape_local_trs [OF r(3)] s2p p(3) p(4) by (simp add: world_clean_def)
      from world_store_inv [OF r(1) nc2 this] have i': "tree_inv ?s' d bound" .
      have sh: "same_shape s ?s'"
        using same_shape_trans [OF p(5) r(3)] by (simp add: same_shape_def)
      have fr: "\<forall>j. d n < d j \<longrightarrow> ?s' j = s j"
        using r(5) p(6) dp by auto
      show ?thesis
        using run i' sh fr by (simp add: world_clean_def)
    qed
  qed
qed



section \<open>Transform: re-parenting\<close>

lemma marks_child_rel: "marks s s' \<Longrightarrow> child_rel s' = child_rel s"
  by (simp add: child_rel_def marks_fields)

text \<open>A node that is its own descendant sends \<open>_mark_world_dirty\<close> round the cycle until
  the recursion limit.\<close>

lemma mark_cycle:
  "(n, n) \<in> (child_rel s)\<^sup>+ \<Longrightarrow> mark_world_dirty k s n = None"
  "(\<exists>c \<in> set cs. (c, c) \<in> (child_rel s)\<^sup>+) \<Longrightarrow> mark_children k s cs = None"
proof (induction k s n and k s cs rule: mark_world_dirty_mark_children.induct)
  case (1 s n)
  then show ?case by simp
next
  case (2 k s n)
  let ?s0 = "s(n := (s n)\<lparr>t_world_dirty := True\<rparr>)"
  have rel: "child_rel ?s0 = child_rel s"
    by (auto simp: child_rel_def split: if_splits)
  from "2.prems" obtain c where c: "(n, c) \<in> child_rel s" "(c, n) \<in> (child_rel s)\<^sup>*"
    by (meson tranclD)
  then have "(c, c) \<in> (child_rel s)\<^sup>+"
    by (meson rtrancl_into_trancl1)
  moreover have "c \<in> set (t_children (s n))"
    using c(1) by (simp add: child_rel_def)
  ultimately have "\<exists>c \<in> set (t_children (s n)). (c, c) \<in> (child_rel ?s0)\<^sup>+"
    unfolding rel by blast
  then have "mark_children k ?s0 (t_children (s n)) = None"
    by (rule "2.IH")
  then show ?case by (simp only: mark_world_dirty.simps)
next
  case (3 k s)
  then show ?case by simp
next
  case (4 k s c cs)
  show ?case
  proof (cases "mark_world_dirty k s c")
    case None
    then show ?thesis by simp
  next
    case (Some s1)
    have nc: "(c, c) \<notin> (child_rel s)\<^sup>+"
      using "4.IH"(1) Some by auto
    have "marks s s1" using mark_spec(1) [OF Some] by blast
    then have "child_rel s1 = child_rel s" by (rule marks_child_rel)
    then have "\<exists>c \<in> set cs. (c, c) \<in> (child_rel s1)\<^sup>+"
      using "4.prems" nc by auto
    from "4.IH"(2) [OF Some this] show ?thesis
      using Some by simp
  qed
qed

lemma ranked_trancl:
  assumes "links_ok s" "ranked s d bound" "(a, b) \<in> (child_rel s)\<^sup>+"
  shows "d a < d b"
  using assms(3)
proof (induction rule: trancl_induct)
  case (base y)
  then have "t_parent (s y) = Some a"
    using assms(1) by (simp add: child_rel_def links_ok_def)
  then show ?case using assms(2) by (simp add: ranked_def)
next
  case (step y z)
  then have "t_parent (s z) = Some y"
    using assms(1) by (simp add: child_rel_def links_ok_def)
  then have "d y < d z" using assms(2) by (simp add: ranked_def)
  then show ?case using step.IH by simp
qed

lemma relink_fields:
  assumes "t_parent (s n) \<noteq> val" "t_parent (s n) \<noteq> Some n"
  shows "t_parent (relink s n val m) = (if m = n then val else t_parent (s m))"
    and "t_children (relink s n val m)
         = (if val = Some m then t_children (s m) @ [n]
            else if t_parent (s n) = Some m then remove1 n (t_children (s m))
            else t_children (s m))"
    and "t_position (relink s n val m) = t_position (s m)"
    and "t_rotation (relink s n val m) = t_rotation (s m)"
    and "t_scale (relink s n val m) = t_scale (s m)"
    and "t_local_matrix (relink s n val m) = t_local_matrix (s m)"
    and "t_world_matrix (relink s n val m) = t_world_matrix (s m)"
    and "t_local_dirty (relink s n val m) = t_local_dirty (s m)"
    and "t_world_dirty (relink s n val m) = t_world_dirty (s m)"
  using assms by (auto simp: relink_def Let_def split: option.splits)

lemma relink_child:
  assumes li: "links_ok s" and ne: "t_parent (s n) \<noteq> val" and ns: "t_parent (s n) \<noteq> Some n"
  shows "c \<in> set (t_children (relink s n val m))
         \<longleftrightarrow> (c = n \<and> val = Some m) \<or> (c \<noteq> n \<and> t_parent (s c) = Some m)"
proof -
  have mem: "c \<in> set (t_children (s m)) \<longleftrightarrow> t_parent (s c) = Some m" for c m
    using li by (simp add: links_ok_def)
  have dist: "distinct (t_children (s m))"
    using li by (simp add: links_ok_def)
  show ?thesis
    using ne ns mem dist by (auto simp: relink_fields(2) [of s n val, OF ne ns])
qed

lemma relink_links_ok:
  assumes li: "links_ok s" and ne: "t_parent (s n) \<noteq> val" and ns: "t_parent (s n) \<noteq> Some n"
  shows "links_ok (relink s n val)"
  unfolding links_ok_def
proof (intro conjI allI)
  fix c m
  show "(t_parent (relink s n val c) = Some m) = (c \<in> set (t_children (relink s n val m)))"
    unfolding relink_child [of s n val, OF li ne ns] relink_fields(1) [of s n val, OF ne ns] by auto
next
  fix m
  have mem: "c \<in> set (t_children (s m)) \<longleftrightarrow> t_parent (s c) = Some m" for c
    using li by (simp add: links_ok_def)
  have dist: "distinct (t_children (s m))"
    using li by (simp add: links_ok_def)
  show "distinct (t_children (relink s n val m))"
    using ne ns mem dist by (auto simp: relink_fields(2) [of s n val, OF ne ns])
qed



lemma set_parent_relink:
  assumes li: "links_ok s" and ne: "t_parent (s n) \<noteq> val"
  shows "set_parent k s n val = mark_world_dirty k (relink s n val) n"
proof (cases "t_parent (s n)")
  case None
  have ne': "None \<noteq> val" using ne None by simp
  show ?thesis
    by (simp only: set_parent_def relink_def None ne' option.simps if_False Let_def)
next
  case (Some p)
  have mem: "n \<in> set (t_children (s p))"
    using li Some by (simp add: links_ok_def)
  have ne': "Some p \<noteq> val" using ne Some by simp
  show ?thesis
    by (simp only: set_parent_def relink_def Some ne' mem option.simps if_False if_True Let_def)
qed

lemma relink_ranked_detach:
  assumes rk: "ranked s d bound" and ne: "t_parent (s n) \<noteq> None"
  shows "ranked (relink s n None) d bound"
proof -
  have ns: "t_parent (s n) \<noteq> Some n"
    using rk by (auto simp: ranked_def)
  show ?thesis
    using rk by (auto simp: ranked_def relink_fields(1) [of s n None, OF ne ns] split: if_splits)
qed

lemma relink_ranked_attach:
  assumes li: "links_ok s" and rk: "ranked s d bound"
    and ne: "t_parent (s n) \<noteq> Some q"
    and acyclic: "(n, n) \<notin> (child_rel (relink s n (Some q)))\<^sup>+"
  shows "\<exists>d' bound'. ranked (relink s n (Some q)) d' bound'"
proof -
  let ?s3 = "relink s n (Some q)"
  have ns: "t_parent (s n) \<noteq> Some n"
    using rk by (auto simp: ranked_def)
  note child3 = relink_child [of s n "Some q", OF li ne ns]
  note par3 = relink_fields(1) [of s n "Some q", OF ne ns]
  have mem: "c \<in> set (t_children (s m)) \<longleftrightarrow> t_parent (s c) = Some m" for c m
    using li by (simp add: links_ok_def)
  define D where "D = {m. (n, m) \<in> (child_rel s)\<^sup>*}"
  have nD: "n \<in> D" by (simp add: D_def)
  text \<open>Every descendant of the node before the update is one after it.\<close>
  have keep: "(n, m) \<in> (child_rel ?s3)\<^sup>*" if "(n, m) \<in> (child_rel s)\<^sup>*" for m
    using that
  proof (induction rule: rtrancl_induct)
    case base
    then show ?case by simp
  next
    case (step a b)
    have "b \<noteq> n"
    proof
      assume "b = n"
      then have "(n, n) \<in> (child_rel s)\<^sup>+"
        using step.hyps by (meson rtrancl_into_trancl1)
      from ranked_trancl [OF li rk this] show False by simp
    qed
    moreover have "t_parent (s b) = Some a"
      using step.hyps(2) mem by (simp add: child_rel_def)
    ultimately have "(a, b) \<in> child_rel ?s3"
      by (simp add: child_rel_def child3)
    then show ?case using step.IH by (meson rtrancl.rtrancl_into_rtrancl)
  qed
  have qD: "q \<notin> D"
  proof
    assume "q \<in> D"
    then have "(n, q) \<in> (child_rel ?s3)\<^sup>*"
      using keep by (simp add: D_def)
    moreover have "(q, n) \<in> child_rel ?s3"
      by (simp add: child_rel_def child3)
    ultimately have "(n, n) \<in> (child_rel ?s3)\<^sup>+"
      by (meson rtrancl_into_trancl1)
    then show False using acyclic by simp
  qed
  define d' where "d' = (\<lambda>m. if m \<in> D then d m + d q + 1 else d m)"
  have bnd: "\<forall>m. d' m \<le> 2 * bound + 1"
  proof
    fix m
    have "d m \<le> bound" "d q \<le> bound" using rk by (simp_all add: ranked_def)
    then show "d' m \<le> 2 * bound + 1" by (simp add: d'_def)
  qed
  have up: "d' r < d' m" if "t_parent (?s3 m) = Some r" for m r
  proof (cases "m = n")
    case True
    then have "r = q" using that by (simp add: par3)
    then show ?thesis using True nD qD by (simp add: d'_def)
  next
    case False
    then have pm: "t_parent (s m) = Some r" using that by (simp add: par3)
    then have lt: "d r < d m" using rk by (simp add: ranked_def)
    have edge: "(r, m) \<in> child_rel s" using pm mem by (simp add: child_rel_def)
    show ?thesis
    proof (cases "m \<in> D")
      case True
      then have "(n, m) \<in> (child_rel s)\<^sup>*" by (simp add: D_def)
      then obtain a where a: "(n, a) \<in> (child_rel s)\<^sup>*" "(a, m) \<in> child_rel s"
        using False by (auto elim: rtranclE)
      then have "t_parent (s m) = Some a" using mem by (simp add: child_rel_def)
      then have "a = r" using pm by simp
      then have "r \<in> D" using a(1) by (simp add: D_def)
      then show ?thesis using True lt by (simp add: d'_def)
    next
      case mD: False
      have "r \<notin> D"
      proof
        assume "r \<in> D"
        then have "(n, m) \<in> (child_rel s)\<^sup>*"
          using edge by (simp add: D_def)
        then show False using mD by (simp add: D_def)
      qed
      then show ?thesis using mD lt by (simp add: d'_def)
    qed
  qed
  have "ranked ?s3 d' (2 * bound + 1)"
    using bnd up by (simp add: ranked_def)
  then show ?thesis by blast
qed

lemma set_parent_inv:
  assumes inv: "tree_inv s d bound" and run: "set_parent k s n val = Some s'"
  shows "\<exists>d' bound'. tree_inv s' d' bound'"
proof (cases "t_parent (s n) = val")
  case True
  then have "s' = s" using run by (simp add: set_parent_def)
  then show ?thesis using inv by blast
next
  case ne: False
  have li: "links_ok s" and rk: "ranked s d bound" and c: "caches_ok s"
    using inv by (simp_all add: tree_inv_def)
  have ns: "t_parent (s n) \<noteq> Some n"
    using rk by (auto simp: ranked_def)
  let ?s3 = "relink s n val"
  note f = relink_fields [of s n val, OF ne ns]
  have run3: "mark_world_dirty k ?s3 n = Some s'"
    using run set_parent_relink [OF li ne] by simp
  have mk: "marks ?s3 s'" "t_world_dirty (s' n)"
    using mark_spec(1) [OF run3] by simp_all
  have li3: "links_ok ?s3"
    by (rule relink_links_ok [OF li ne ns])
  have "\<exists>d' bound'. ranked ?s3 d' bound'"
  proof (cases val)
    case None
    then have "t_parent (s n) \<noteq> None" using ne by simp
    from relink_ranked_detach [OF rk this] show ?thesis
      using None by blast
  next
    case (Some q)
    have "(n, n) \<notin> (child_rel ?s3)\<^sup>+"
      using mark_cycle(1) [of n ?s3 k] run3 by auto
    then show ?thesis
      using relink_ranked_attach [OF li rk, of n q] ne Some by simp
  qed
  then obtain d' bound' where rk3: "ranked ?s3 d' bound'" by blast
  have tr: "local_trs ?s3 m = local_trs s m" for m
    by (simp add: local_trs_def f)
  have wc: "world_clean ?s3 m = world_clean s m" for m
    by (simp add: world_clean_def f)
  have loc: "\<forall>m. local_clean ?s3 m \<longrightarrow> t_local_matrix (?s3 m) = Some (local_trs ?s3 m)"
    using c by (simp add: caches_ok_def local_clean_def f tr)
  have wor: "\<forall>m. m \<noteq> n \<longrightarrow> world_clean ?s3 m \<longrightarrow>
               (case t_parent (?s3 m) of
                  None \<Rightarrow> t_world_matrix (?s3 m) = Some (local_trs ?s3 m)
                | Some p \<Rightarrow> world_clean ?s3 p
                    \<and> t_world_matrix (?s3 m)
                      = Some (mat_mul (the (t_world_matrix (?s3 p))) (local_trs ?s3 m)))"
  proof (intro allI impI)
    fix m
    assume m: "m \<noteq> n" and "world_clean ?s3 m"
    then have "world_clean s m" by (simp only: wc)
    then have old: "case t_parent (s m) of
                  None \<Rightarrow> t_world_matrix (s m) = Some (local_trs s m)
                | Some p \<Rightarrow> world_clean s p
                    \<and> t_world_matrix (s m) = Some (mat_mul (the (t_world_matrix (s p))) (local_trs s m))"
      using c by (simp add: caches_ok_def)
    have pm: "t_parent (?s3 m) = t_parent (s m)"
      using m by (simp add: f(1))
    show "case t_parent (?s3 m) of
                  None \<Rightarrow> t_world_matrix (?s3 m) = Some (local_trs ?s3 m)
                | Some p \<Rightarrow> world_clean ?s3 p
                    \<and> t_world_matrix (?s3 m)
                      = Some (mat_mul (the (t_world_matrix (?s3 p))) (local_trs ?s3 m))"
      unfolding pm wc tr f(7) by (rule old)
  qed
  have "caches_ok s'"
    by (rule marks_caches_ok [OF li3 mk loc wor])
  then have "tree_inv s' d' bound'"
    using marks_links_ok [OF mk(1) li3] marks_ranked [OF mk(1) rk3] by (simp add: tree_inv_def)
  then show ?thesis by blast
qed



section \<open>Transform: every reachable store\<close>

lemma world_matrix_Suc_clean:
  assumes "world_clean s n"
  shows "world_matrix (Suc k) s n = Some (the (t_world_matrix (s n)), s)"
proof -
  obtain y where "t_world_matrix (s n) = Some y" "\<not> t_world_dirty (s n)"
    using assms by (auto simp: world_clean_def)
  then show ?thesis by simp
qed

lemma world_matrix_Suc_root:
  "t_world_dirty (s n) \<or> t_world_matrix (s n) = None \<Longrightarrow> t_parent (s n) = None
   \<Longrightarrow> world_matrix (Suc k) s n = world_matrix (Suc k') s n"
  by simp

lemma world_matrix_Suc_child:
  "t_world_dirty (s n) \<or> t_world_matrix (s n) = None \<Longrightarrow> t_parent (s n) = Some p
   \<Longrightarrow> world_matrix k s p = world_matrix k' s p
   \<Longrightarrow> world_matrix (Suc k) s n = world_matrix (Suc k') s n"
  by simp

lemma world_matrix_Suc_child_None:
  "t_world_dirty (s n) \<or> t_world_matrix (s n) = None \<Longrightarrow> t_parent (s n) = Some p
   \<Longrightarrow> world_matrix k s p = None \<Longrightarrow> world_matrix (Suc k) s n = None"
  by simp

lemma world_matrix_more_fuel:
  "world_matrix k s n = Some r \<Longrightarrow> k \<le> k' \<Longrightarrow> world_matrix k' s n = Some r"
proof (induction k arbitrary: s n r k')
  case 0
  then show ?case by simp
next
  case (Suc k)
  from Suc.prems(2) obtain j where k': "k' = Suc j" "k \<le> j"
    by (cases k') simp_all
  show ?case
  proof (cases "world_clean s n")
    case True
    show ?thesis
      using Suc.prems(1) unfolding k' world_matrix_Suc_clean [of s n, OF True] .
  next
    case False
    then have True: "t_world_dirty (s n) \<or> t_world_matrix (s n) = None"
      by (simp add: world_clean_def)
    show ?thesis
    proof (cases "t_parent (s n)")
      case None
      show ?thesis
        using Suc.prems(1) unfolding k' world_matrix_Suc_root [of s n k j, OF True None] .
    next
      case (Some p)
      show ?thesis
      proof (cases "world_matrix k s p")
        case None
        then show ?thesis
          using Suc.prems(1) world_matrix_Suc_child_None [of s n p k, OF True Some None] by simp
      next
        case (Some pr)
        have "world_matrix j s p = Some pr"
          by (rule Suc.IH [OF Some k'(2)])
        then have "world_matrix k s p = world_matrix j s p"
          using Some by simp
        from world_matrix_Suc_child [of s n p k j, OF True \<open>t_parent (s n) = Some p\<close> this]
        show ?thesis
          using Suc.prems(1) unfolding k' by simp
      qed
    qed
  qed
qed

lemma init_store_inv: "tree_inv init_store (\<lambda>n. 0) 0"
  by (simp add: tree_inv_def links_ok_def ranked_def caches_ok_def init_store_def
      new_transform_def local_clean_def world_clean_def)

lemma world_matrix_inv:
  assumes inv: "tree_inv s d bound" and run: "world_matrix k s n = Some (w, s')"
  shows "tree_inv s' d bound"
proof -
  let ?k = "max k (Suc (d n))"
  have "d n < ?k" by simp
  from world_matrix_read [OF inv this] obtain w2 s2 where
    r: "world_matrix ?k s n = Some (w2, s2)" "tree_inv s2 d bound"
    by blast
  have "world_matrix ?k s n = Some (w, s')"
    by (rule world_matrix_more_fuel [OF run]) simp
  then show ?thesis using r by simp
qed

lemma reachable_inv: "reachable s \<Longrightarrow> \<exists>d bound. tree_inv s d bound"
proof (induction rule: reachable.induct)
  case start
  show ?case using init_store_inv by blast
next
  case (assign_position s k n v s')
  then show ?case using set_position_inv by blast
next
  case (assign_rotation s k n q s')
  then show ?case using set_rotation_inv by blast
next
  case (assign_scale s k n v s')
  then show ?case using set_scale_inv by blast
next
  case (assign_parent s k n val s')
  then show ?case using set_parent_inv by blast
next
  case (read_local s n m s')
  then show ?case using local_matrix_read(1) by blast
next
  case (read_world s k n m s')
  then show ?case using world_matrix_inv by blast
qed

lemma ranked_children:
  assumes "links_ok s" "ranked s d bound"
  shows "\<forall>p c. c \<in> set (t_children (s p)) \<longrightarrow> d p < d c"
  using assms by (simp add: links_ok_def ranked_def)

lemma set_position_returns:
  assumes "tree_inv s d bound"
  shows "\<exists>s'. set_position (Suc bound) s n v = Some s'"
proof -
  define s1 where "s1 = s(n := (s n)\<lparr>t_position := Vector3 (vx v) (vy v) (vz v),
                                      t_local_dirty := True\<rparr>)"
  have run: "set_position (Suc bound) s n v = mark_world_dirty (Suc bound) s1 n"
    by (simp add: set_position_def mark_dirty_def s1_def)
  have b: "\<forall>m. d m \<le> bound" using assms by (simp add: tree_inv_def ranked_def)
  have "links_ok s" "ranked s d bound"
    using assms by (simp_all add: tree_inv_def)
  then have "\<forall>p c. c \<in> set (t_children (s p)) \<longrightarrow> d p < d c"
    by (rule ranked_children)
  then have ch: "\<forall>p c. c \<in> set (t_children (s1 p)) \<longrightarrow> d p < d c"
    by (simp add: s1_def)
  have "bound - d n < Suc bound" by simp
  from mark_returns(1) [of d bound s1 n "Suc bound", OF b ch this] show ?thesis
    unfolding run .
qed

text \<open>
  Claim C1.  Take any store reached from new transforms by assignments to \<open>position\<close>,
  \<open>rotation\<close>, \<open>scale\<close> and \<open>parent\<close> that returned, and by matrix reads, in any order, and
  any node.  Then under every recursion limit from some bound on, the read of
  \<open>world_matrix\<close> on the node returns; it changes no position, rotation, scale, parent or
  child list; for a root the matrix returned is the TRS matrix of the node's position,
  rotation and scale; and for a node with a parent it is the product of what
  \<open>world_matrix\<close> on the parent returns right after (without changing the store again)
  and what \<open>local_matrix\<close> on the node returns, which is the TRS matrix of the node's
  position, rotation and scale.  (An assignment to \<open>parent\<close> that would make a node its own
  ancestor does not return, by \<open>mark_cycle\<close>: it ends in the RecursionError.)
\<close>

theorem world_matrix_never_stale:
  assumes "reachable s"
  shows "\<exists>k0. \<forall>k\<ge>k0. \<exists>w s'.
           world_matrix k s n = Some (w, s') \<and> same_shape s s'
           \<and> (case t_parent (s' n) of
                 None \<Rightarrow> w = trs (t_position (s' n)) (t_rotation (s' n)) (t_scale (s' n))
               | Some p \<Rightarrow>
                   (\<exists>pw. world_matrix k s' p = Some (pw, s')
                      \<and> fst (local_matrix s' n)
                        = trs (t_position (s' n)) (t_rotation (s' n)) (t_scale (s' n))
                      \<and> w = mat_mul pw (fst (local_matrix s' n))))"
proof -
  from reachable_inv [OF assms] obtain d bound where inv: "tree_inv s d bound"
    by blast
  have "\<exists>w s'.
           world_matrix k s n = Some (w, s') \<and> same_shape s s'
           \<and> (case t_parent (s' n) of
                 None \<Rightarrow> w = trs (t_position (s' n)) (t_rotation (s' n)) (t_scale (s' n))
               | Some p \<Rightarrow>
                   (\<exists>pw. world_matrix k s' p = Some (pw, s')
                      \<and> fst (local_matrix s' n)
                        = trs (t_position (s' n)) (t_rotation (s' n)) (t_scale (s' n))
                      \<and> w = mat_mul pw (fst (local_matrix s' n))))"
    if k: "Suc bound \<le> k" for k
  proof -
    have "d n \<le> bound" using inv by (simp add: tree_inv_def ranked_def)
    then have "d n < k" using k by simp
    from world_matrix_read [OF inv this] obtain w s' where
      r: "world_matrix k s n = Some (w, s')" "tree_inv s' d bound" "world_clean s' n"
        "t_world_matrix (s' n) = Some w" "same_shape s s'"
      by blast
    have c: "caches_ok s'" using r(2) by (simp add: tree_inv_def)
    obtain l s2 where l: "local_matrix s' n = (l, s2)" by (cases "local_matrix s' n")
    have lt: "fst (local_matrix s' n) = local_trs s' n"
      using local_matrix_read(2) [OF r(2) l] l by simp
    have "case t_parent (s' n) of
                 None \<Rightarrow> w = local_trs s' n
               | Some p \<Rightarrow>
                   (\<exists>pw. world_matrix k s' p = Some (pw, s')
                      \<and> fst (local_matrix s' n) = local_trs s' n
                      \<and> w = mat_mul pw (fst (local_matrix s' n)))"
    proof (cases "t_parent (s' n)")
      case None
      then show ?thesis
        using c r(3) r(4) by (auto simp: caches_ok_def)
    next
      case (Some p)
      have pc: "world_clean s' p"
        and wv: "t_world_matrix (s' n) = Some (mat_mul (the (t_world_matrix (s' p))) (local_trs s' n))"
        using c r(3) Some by (auto simp: caches_ok_def)
      obtain j where j: "k = Suc j" using k by (cases k) simp_all
      have "world_matrix k s' p = Some (the (t_world_matrix (s' p)), s')"
        unfolding j by (rule world_matrix_Suc_clean [OF pc])
      then show ?thesis
        using Some wv r(4) lt by simp
    qed
    then have "case t_parent (s' n) of
                 None \<Rightarrow> w = trs (t_position (s' n)) (t_rotation (s' n)) (t_scale (s' n))
               | Some p \<Rightarrow>
                   (\<exists>pw. world_matrix k s' p = Some (pw, s')
                      \<and> fst (local_matrix s' n)
                        = trs (t_position (s' n)) (t_rotation (s' n)) (t_scale (s' n))
                      \<and> w = mat_mul pw (fst (local_matrix s' n)))"
      unfolding local_trs_def .
    then show ?thesis
      using r(1) r(5) by blast
  qed
  then show ?thesis by blast
qed



theorem world_matrix_never_stale_witness:
  "\<exists>s1 k1 s2.
     set_parent (Suc 0) init_store 1 (Some 0) = Some s1
     \<and> set_position k1 s1 0 (Vector3 1 0 0) = Some s2
     \<and> reachable s2
     \<and> (\<exists>k0. \<forall>k\<ge>k0. \<exists>w s'.
           world_matrix k s2 1 = Some (w, s') \<and> same_shape s2 s'
           \<and> (case t_parent (s' 1) of
                 None \<Rightarrow> w = trs (t_position (s' 1)) (t_rotation (s' 1)) (t_scale (s' 1))
               | Some p \<Rightarrow>
                   (\<exists>pw. world_matrix k s' p = Some (pw, s')
                      \<and> fst (local_matrix s' 1)
                        = trs (t_position (s' 1)) (t_rotation (s' 1)) (t_scale (s' 1))
                      \<and> w = mat_mul pw (fst (local_matrix s' 1)))))"
proof -
  have "\<exists>s1. set_parent (Suc 0) init_store 1 (Some 0) = Some s1"
    by (simp add: set_parent_def init_store_def new_transform_def Let_def)
  then obtain s1 where s1: "set_parent (Suc 0) init_store 1 (Some 0) = Some s1"
    by blast
  have r1: "reachable s1"
    by (rule reachable.assign_parent [OF reachable.start s1])
  from reachable_inv [OF r1] obtain d bound where "tree_inv s1 d bound"
    by blast
  from set_position_returns [OF this, of 0 "Vector3 1 0 0"] obtain s2 where
    s2: "set_position (Suc bound) s1 0 (Vector3 1 0 0) = Some s2"
    by blast
  have r2: "reachable s2"
    by (rule reachable.assign_position [OF r1 s2])
  show ?thesis
    using s1 s2 r2 world_matrix_never_stale [OF r2, of 1] by blast
qed

section \<open>Camera: projecting a point\<close>

lemma transform_point_mat_vec:
  "mat_vec m p = (x, y, z, w) \<Longrightarrow>
   transform_point m p
   = Vector3 (x / (if \<bar>w\<bar> < EPSILON then 1 else w)) (y / (if \<bar>w\<bar> < EPSILON then 1 else w))
       (z / (if \<bar>w\<bar> < EPSILON then 1 else w))"
  by (auto simp: mat_vec_def transform_point_def Let_def)

lemma transform_point_affine:
  assumes "affine m"
  shows "mat_vec m p = (vx (transform_point m p), vy (transform_point m p),
                        vz (transform_point m p), 1)"
  using assms EPSILON_pos by (simp add: mat_vec_def transform_point_def affine_def EPSILON_def Let_def)

lemma transform_point_identity: "transform_point m_identity p = p"
  by (cases p) (simp add: transform_point_def m_identity_def EPSILON_def Let_def)

lemma affine_trs: "affine (trs t r s)"
  by (simp add: affine_def trs_def from_quaternion_def Let_def)

lemma affine_mat_mul: "affine a \<Longrightarrow> affine b \<Longrightarrow> affine (mat_mul a b)"
  by (simp add: affine_def mat_mul_def)

lemma affine_right_inverse:
  assumes "affine w" "mat_mul w i = m_identity"
  shows "affine i"
proof -
  have "m30 (mat_mul w i) = m30 i" "m31 (mat_mul w i) = m31 i"
    "m32 (mat_mul w i) = m32 i" "m33 (mat_mul w i) = m33 i"
    using assms(1) by (simp_all add: affine_def mat_mul_def)
  then show ?thesis
    unfolding assms(2) by (simp add: affine_def m_identity_def)
qed

lemma clean_world_affine:
  assumes "tree_inv s d bound" "world_clean s n" "t_world_matrix (s n) = Some w"
  shows "affine w"
  using assms(2,3)
proof (induction "d n" arbitrary: n w rule: less_induct)
  case less
  have c: "caches_ok s" and r: "ranked s d bound"
    using assms(1) by (simp_all add: tree_inv_def)
  have cn: "case t_parent (s n) of
                None \<Rightarrow> t_world_matrix (s n) = Some (local_trs s n)
              | Some p \<Rightarrow>
                  world_clean s p
                  \<and> t_world_matrix (s n)
                    = Some (mat_mul (the (t_world_matrix (s p))) (local_trs s n))"
    using c less.prems(1) unfolding caches_ok_def by blast
  show ?case
  proof (cases "t_parent (s n)")
    case None
    then have "t_world_matrix (s n) = Some (local_trs s n)"
      using cn by simp
    then show ?thesis
      using less.prems(2) by (auto simp: local_trs_def affine_trs)
  next
    case (Some p)
    then have pc: "world_clean s p"
      and w: "t_world_matrix (s n) = Some (mat_mul (the (t_world_matrix (s p))) (local_trs s n))"
      using cn by simp_all
    obtain pw where pw: "t_world_matrix (s p) = Some pw"
      using pc by (auto simp: world_clean_def)
    have "d p < d n" using r Some by (simp add: ranked_def)
    then have "affine pw" using less.hyps pc pw by blast
    then have "affine (mat_mul pw (local_trs s n))"
      by (simp add: affine_mat_mul local_trs_def affine_trs)
    then show ?thesis
      using w pw less.prems(2) by simp
  qed
qed

lemma world_to_screen_behind:
  assumes "world_matrix k s (c_transform c) = Some (w, s1)"
    and "vz (transform_point (case inverse_m w of Some i \<Rightarrow> i | None \<Rightarrow> m_identity) p) \<ge> 0"
  shows "world_to_screen k s c p sw sh = Some (None, s1, c)"
  using assms by (simp add: world_to_screen_def view_matrix_def Let_def)

lemma world_to_screen_in_front:
  assumes "world_matrix k s (c_transform c) = Some (w, s1)"
    and "projection_matrix c = Some (pm, c1)"
    and "v = transform_point (case inverse_m w of Some i \<Rightarrow> i | None \<Rightarrow> m_identity) p"
    and "vz v < 0"
  shows "world_to_screen k s c p sw sh
         = Some (Some ((vx (transform_point pm v) + 1) * 0.5 * sw,
                       (1 - vy (transform_point pm v)) * 0.5 * sh,
                       - vz v), s1, c1)"
  using assms by (simp add: world_to_screen_def view_matrix_def Let_def)

lemma view_point:
  assumes "affine w"
    and "v = transform_point (case inverse_m w of Some i \<Rightarrow> i | None \<Rightarrow> m_identity) p"
  shows "if \<bar>determinant w\<bar> < EPSILON then v = p
         else \<exists>i. mat_mul w i = m_identity \<and> mat_mul i w = m_identity
                \<and> mat_vec i p = (vx v, vy v, vz v, 1)"
proof (cases "\<bar>determinant w\<bar> < EPSILON")
  case True
  then have "inverse_m w = None" by (simp add: inverse_m_adjugate)
  then show ?thesis
    using True assms(2) by (simp add: transform_point_identity)
next
  case False
  then obtain i where i: "inverse_m w = Some i" by (simp add: inverse_m_adjugate)
  have r: "mat_mul w i = m_identity" by (rule inverse_m_right [OF i])
  have l: "mat_mul i w = m_identity" by (rule inverse_m_left [OF i])
  have "affine i" by (rule affine_right_inverse [OF assms(1) r])
  then have "mat_vec i p = (vx v, vy v, vz v, 1)"
    using transform_point_affine [of i p] assms(2) i by simp
  then show ?thesis
    using False r l by auto
qed

lemma clip_point:
  "\<exists>cx cy cz cw. mat_vec pm v = (cx, cy, cz, cw)
     \<and> vx (transform_point pm v) = cx / (if \<bar>cw\<bar> < EPSILON then 1 else cw)
     \<and> vy (transform_point pm v) = cy / (if \<bar>cw\<bar> < EPSILON then 1 else cw)"
proof -
  obtain cx cy cz cw where m: "mat_vec pm v = (cx, cy, cz, cw)"
    by (cases "mat_vec pm v")
  show ?thesis
    using transform_point_mat_vec [OF m] m by simp
qed

lemma tan_half_sixty: "tan (60 * DEG_TO_RAD / 2) = 1 / sqrt 3"
proof -
  have e: "60 * DEG_TO_RAD / 2 = pi / 6" by (simp add: DEG_TO_RAD_def PI_def)
  show ?thesis by (simp only: e tan_30)
qed

lemma scenario_fields:
  "c_fov scenario_camera = 60 * DEG_TO_RAD" "c_aspect scenario_camera = 1"
  "c_near scenario_camera = 0.1" "c_far scenario_camera = 100"
  "\<not> c_is_orthographic scenario_camera" "c_projection_dirty scenario_camera"
proof -
  have "(0.01 :: real) \<le> 60 * (pi / 180)" using pi_ge_two by simp
  moreover have "60 * (pi / 180) \<le> pi - 0.01" using pi_ge_two by simp
  ultimately show "c_fov scenario_camera = 60 * DEG_TO_RAD"
    by (simp add: scenario_camera_def set_far_clip_def set_near_clip_def set_aspect_def
        set_fov_degrees_def set_fov_def new_camera_def clamp_def DEG_TO_RAD_def PI_def)
  show "c_aspect scenario_camera = 1" "c_near scenario_camera = 0.1"
    "c_far scenario_camera = 100" "\<not> c_is_orthographic scenario_camera"
    "c_projection_dirty scenario_camera"
    by (simp_all add: scenario_camera_def set_far_clip_def set_near_clip_def set_aspect_def
        set_fov_degrees_def set_fov_def new_camera_def)
qed

lemma scenario_perspective:
  "perspective (60 * DEG_TO_RAD) 1 0.1 100
   = Some (Matrix4 (sqrt 3) 0 0 0  0 (sqrt 3) 0 0  0 0 (- (1001 / 999)) (- (200 / 999))
             0 0 (- 1) 0)"
  unfolding perspective_def tan_half_sixty
  by (simp add: py_div_def Let_def)

lemma scenario_projection:
  "projection_matrix scenario_camera
   = Some (Matrix4 (sqrt 3) 0 0 0  0 (sqrt 3) 0 0  0 0 (- (1001 / 999)) (- (200 / 999))
             0 0 (- 1) 0,
           scenario_camera\<lparr>c_projection_matrix :=
              Some (Matrix4 (sqrt 3) 0 0 0  0 (sqrt 3) 0 0  0 0 (- (1001 / 999)) (- (200 / 999))
                      0 0 (- 1) 0),
              c_projection_dirty := False\<rparr>)"
  by (simp add: projection_matrix_def scenario_fields scenario_perspective)

lemma scenario_transform: "c_transform scenario_camera = 0"
  by (simp add: scenario_camera_def set_far_clip_def set_near_clip_def set_aspect_def
      set_fov_degrees_def set_fov_def new_camera_def)

lemma perspective_returns:
  assumes "0 < fov" "fov < pi" "aspect \<noteq> 0" "near \<noteq> far"
  shows "\<exists>m. perspective fov aspect near far = Some m"
proof -
  have "0 < tan (fov / 2)"
    using assms(1,2) by (intro tan_gt_zero) simp_all
  then show ?thesis
    using assms(3,4) by (simp add: perspective_def py_div_def Let_def)
qed

lemma projection_matrix_returns:
  assumes "camera_params_ok c" "\<not> c_is_orthographic c" "c_near c \<noteq> c_far c"
  shows "\<exists>pm c1. projection_matrix c = Some (pm, c1)"
proof -
  have "0 < c_fov c" "c_fov c < pi" "c_aspect c \<noteq> 0"
    using assms(1) by (simp_all add: camera_params_ok_def PI_def)
  from perspective_returns [OF this assms(3)] obtain m where
    "perspective (c_fov c) (c_aspect c) (c_near c) (c_far c) = Some m"
    by blast
  then show ?thesis
    using assms(2) by (simp add: projection_matrix_def)
qed

lemma set_position_placed:
  "set_position (Suc k) init_store 0 (Vector3 0 0 5) = Some placed_store"
  by (simp add: set_position_def mark_dirty_def init_store_def new_transform_def placed_store_def)

lemma set_scale_shrink:
  "set_scale (Suc k) placed_store 0 (Vector3 (1 / 4096) (1 / 4096) (1 / 4096)) = Some shrunk_store"
  by (simp add: set_scale_def mark_dirty_def init_store_def new_transform_def placed_store_def
      shrunk_store_def)

lemma world_matrix_shrunk:
  "\<exists>s1. world_matrix (Suc k) shrunk_store 0 = Some (shrunk_world, s1)"
  by (simp add: shrunk_store_def shrunk_world_def local_matrix_def init_store_def
      new_transform_def trs_def from_quaternion_def q_identity_def Let_def)

lemma shrunk_no_inverse: "inverse_m shrunk_world = None"
  by (simp add: inverse_m_def shrunk_world_def sub_s_def sub_c_def EPSILON_def Let_def)

lemma world_matrix_start:
  "\<exists>s1. world_matrix (Suc k) init_store 0 = Some (m_identity, s1)"
  by (simp add: local_matrix_def init_store_def new_transform_def trs_def from_quaternion_def
      q_identity_def v_one_def v_zero_def m_identity_def Let_def)

lemma identity_inverse: "inverse_m m_identity = Some m_identity"
  by (simp add: inverse_m_def m_identity_def sub_s_def sub_c_def EPSILON_def Let_def)

lemma equal_clips_fields:
  "c_near equal_clips_camera = 100" "c_far equal_clips_camera = 100"
  "\<not> c_is_orthographic equal_clips_camera" "c_projection_dirty equal_clips_camera"
  "c_transform equal_clips_camera = 0"
  by (simp_all add: equal_clips_camera_def set_near_clip_def set_far_clip_def new_camera_def)

lemma equal_clips_projection: "projection_matrix equal_clips_camera = None"
  by (simp add: projection_matrix_def equal_clips_fields perspective_def py_div_def Let_def
      bind_eq_None_conv)

text \<open>
  Claim C3, as the code has it.  Take a store reached from new transforms by assignments
  and matrix reads, a camera whose read of \<open>projection_matrix\<close> returns a matrix \<open>pm\<close>, any
  point \<open>p\<close> and any screen size.  Under every recursion limit from some bound on,
  \<open>world_to_screen\<close> returns.  Let \<open>w\<close> be the world matrix of the camera's transform.  The
  point \<open>v\<close> in view space is \<open>p\<close> transformed by the inverse of \<open>w\<close> (the matrix \<open>i\<close> with
  \<open>w * i = i * w = identity\<close>; the fourth coordinate of the product is 1) when the absolute
  value of the determinant of \<open>w\<close> is at least \<open>EPSILON\<close>, and it is \<open>p\<close> itself when the
  determinant is smaller: \<open>Matrix4.inverse\<close> gives no matrix then, and the property
  \<open>view_matrix\<close> takes the identity.  The result is \<open>None\<close> exactly when the z of \<open>v\<close> is at
  least 0, and otherwise it is the triple
  \<open>((ndc_x + 1) * 0.5 * W, (1 - ndc_y) * 0.5 * H, - z)\<close>, where \<open>ndc_x\<close> and \<open>ndc_y\<close> are the
  first two coordinates of \<open>pm\<close> times \<open>(v, 1)\<close>, divided by the fourth (\<open>transform_point\<close>
  leaves the division out when the fourth is below \<open>EPSILON\<close> in absolute value).
\<close>

theorem world_to_screen_view:
  assumes "reachable s" "projection_matrix c = Some (pm, c1)"
  shows "\<exists>k0. \<forall>k\<ge>k0. \<exists>w s1 v res c'.
           world_matrix k s (c_transform c) = Some (w, s1)
         \<and> (if \<bar>determinant w\<bar> < EPSILON then v = p
            else \<exists>i. mat_mul w i = m_identity \<and> mat_mul i w = m_identity
                   \<and> mat_vec i p = (vx v, vy v, vz v, 1))
         \<and> world_to_screen k s c p sw sh = Some (res, s1, c')
         \<and> (res = None \<longleftrightarrow> vz v \<ge> 0)
         \<and> (vz v < 0 \<longrightarrow>
              (\<exists>cx cy cz cw. mat_vec pm v = (cx, cy, cz, cw)
                 \<and> res = Some ((cx / (if \<bar>cw\<bar> < EPSILON then 1 else cw) + 1) * 0.5 * sw,
                               (1 - cy / (if \<bar>cw\<bar> < EPSILON then 1 else cw)) * 0.5 * sh,
                               - vz v)))"
proof -
  from reachable_inv [OF assms(1)] obtain d bound where inv: "tree_inv s d bound"
    by blast
  have "\<exists>w s1 v res c'.
           world_matrix k s (c_transform c) = Some (w, s1)
         \<and> (if \<bar>determinant w\<bar> < EPSILON then v = p
            else \<exists>i. mat_mul w i = m_identity \<and> mat_mul i w = m_identity
                   \<and> mat_vec i p = (vx v, vy v, vz v, 1))
         \<and> world_to_screen k s c p sw sh = Some (res, s1, c')
         \<and> (res = None \<longleftrightarrow> vz v \<ge> 0)
         \<and> (vz v < 0 \<longrightarrow>
              (\<exists>cx cy cz cw. mat_vec pm v = (cx, cy, cz, cw)
                 \<and> res = Some ((cx / (if \<bar>cw\<bar> < EPSILON then 1 else cw) + 1) * 0.5 * sw,
                               (1 - cy / (if \<bar>cw\<bar> < EPSILON then 1 else cw)) * 0.5 * sh,
                               - vz v)))"
    if k: "Suc bound \<le> k" for k
  proof -
    have "d (c_transform c) \<le> bound" using inv by (simp add: tree_inv_def ranked_def)
    then have "d (c_transform c) < k" using k by simp
    from world_matrix_read [OF inv this] obtain w s1 where
      w: "world_matrix k s (c_transform c) = Some (w, s1)"
      and inv1: "tree_inv s1 d bound" and cl: "world_clean s1 (c_transform c)"
      and cw: "t_world_matrix (s1 (c_transform c)) = Some w"
      by blast
    have aff: "affine w" by (rule clean_world_affine [OF inv1 cl cw])
    define v where "v = transform_point (case inverse_m w of Some i \<Rightarrow> i | None \<Rightarrow> m_identity) p"
    note vp = view_point [OF aff v_def]
    show ?thesis
    proof (cases "vz v \<ge> 0")
      case True
      have "world_to_screen k s c p sw sh = Some (None, s1, c)"
        using world_to_screen_behind [OF w] True by (simp add: v_def)
      then show ?thesis
        using w vp True by (intro exI [of _ w] exI [of _ s1] exI [of _ v]) auto
    next
      case False
      then have neg: "vz v < 0" by simp
      have ws: "world_to_screen k s c p sw sh
            = Some (Some ((vx (transform_point pm v) + 1) * 0.5 * sw,
                          (1 - vy (transform_point pm v)) * 0.5 * sh,
                          - vz v), s1, c1)"
        by (rule world_to_screen_in_front [OF w assms(2) v_def neg])
      from clip_point [of pm v] obtain cx cy cz cw where
        cp: "mat_vec pm v = (cx, cy, cz, cw)"
          "vx (transform_point pm v) = cx / (if \<bar>cw\<bar> < EPSILON then 1 else cw)"
          "vy (transform_point pm v) = cy / (if \<bar>cw\<bar> < EPSILON then 1 else cw)"
        by blast
      have "\<exists>cx cy cz cw. mat_vec pm v = (cx, cy, cz, cw)
                 \<and> Some ((vx (transform_point pm v) + 1) * 0.5 * sw,
                          (1 - vy (transform_point pm v)) * 0.5 * sh, - vz v)
                   = Some ((cx / (if \<bar>cw\<bar> < EPSILON then 1 else cw) + 1) * 0.5 * sw,
                               (1 - cy / (if \<bar>cw\<bar> < EPSILON then 1 else cw)) * 0.5 * sh,
                               - vz v)"
        using cp by (intro exI [of _ cx] exI [of _ cy] exI [of _ cz] exI [of _ cw]) simp
      then show ?thesis
        using w vp neg ws
        by (intro exI [of _ w] exI [of _ s1] exI [of _ v]
            exI [of _ "Some ((vx (transform_point pm v) + 1) * 0.5 * sw,
                          (1 - vy (transform_point pm v)) * 0.5 * sh, - vz v)"] exI [of _ c1])
          simp
    qed
  qed
  then show ?thesis by blast
qed

theorem world_to_screen_view_witness:
  "reachable init_store
   \<and> (\<exists>pm c1. projection_matrix scenario_camera = Some (pm, c1)
      \<and> (\<exists>k0. \<forall>k\<ge>k0. \<exists>w s1 v res c'.
           world_matrix k init_store (c_transform scenario_camera) = Some (w, s1)
         \<and> (if \<bar>determinant w\<bar> < EPSILON then v = Vector3 0 0 (- 5)
            else \<exists>i. mat_mul w i = m_identity \<and> mat_mul i w = m_identity
                   \<and> mat_vec i (Vector3 0 0 (- 5)) = (vx v, vy v, vz v, 1))
         \<and> world_to_screen k init_store scenario_camera (Vector3 0 0 (- 5)) 100 100
             = Some (res, s1, c')
         \<and> (res = None \<longleftrightarrow> vz v \<ge> 0)
         \<and> (vz v < 0 \<longrightarrow>
              (\<exists>cx cy cz cw. mat_vec pm v = (cx, cy, cz, cw)
                 \<and> res = Some ((cx / (if \<bar>cw\<bar> < EPSILON then 1 else cw) + 1) * 0.5 * 100,
                               (1 - cy / (if \<bar>cw\<bar> < EPSILON then 1 else cw)) * 0.5 * 100,
                               - vz v)))))"
  using reachable.start scenario_projection
    world_to_screen_view [OF reachable.start scenario_projection, of "Vector3 0 0 (- 5)" 100 100]
  by blast

text \<open>
  The two ways in which a point in front of the camera gets no screen coordinates.  A
  camera transform at \<open>(0, 0, 5)\<close> with scale \<open>1/4096\<close> has a world matrix with an inverse,
  and the inverse takes the origin to view z \<open>= -20480\<close>; but the determinant is below
  \<open>EPSILON\<close>, the view matrix is the identity, the origin has z \<open>= 0\<close>, and \<open>world_to_screen\<close>
  returns \<open>None\<close>.  And for a camera at the origin with \<open>far_clip = 100\<close> and then
  \<open>near_clip = 100\<close>, the point \<open>(0, 0, -5)\<close> has view z \<open>= -5\<close>, but \<open>Matrix4.perspective\<close>
  divides by \<open>far - near = 0\<close> and \<open>world_to_screen\<close> ends in the ZeroDivisionError.
\<close>

theorem world_to_screen_misses_in_front:
  "set_position (Suc 0) init_store 0 (Vector3 0 0 5) = Some placed_store
   \<and> set_scale (Suc 0) placed_store 0 (Vector3 (1 / 4096) (1 / 4096) (1 / 4096))
     = Some shrunk_store
   \<and> map_option fst (world_matrix (Suc 0) shrunk_store 0) = Some shrunk_world
   \<and> mat_mul shrunk_world shrunk_inverse = m_identity
   \<and> mat_mul shrunk_inverse shrunk_world = m_identity
   \<and> transform_point shrunk_inverse (Vector3 0 0 0) = Vector3 0 0 (- 20480)
   \<and> map_option fst
        (world_to_screen (Suc 0) shrunk_store scenario_camera (Vector3 0 0 0) 100 100)
     = Some None
   \<and> map_option fst (world_matrix (Suc 0) init_store 0) = Some m_identity
   \<and> mat_mul m_identity m_identity = m_identity
   \<and> transform_point m_identity (Vector3 0 0 (- 5)) = Vector3 0 0 (- 5)
   \<and> world_to_screen (Suc 0) init_store equal_clips_camera (Vector3 0 0 (- 5)) 100 100 = None"
proof -
  from world_matrix_shrunk [of 0] obtain s1 where
    w1: "world_matrix (Suc 0) shrunk_store 0 = Some (shrunk_world, s1)" by blast
  from world_matrix_start [of 0] obtain s2 where
    w2: "world_matrix (Suc 0) init_store 0 = Some (m_identity, s2)" by blast
  have a: "map_option fst
        (world_to_screen (Suc 0) shrunk_store scenario_camera (Vector3 0 0 0) 100 100)
     = Some None"
    unfolding world_to_screen_def view_matrix_def scenario_transform w1
    by (simp add: shrunk_no_inverse transform_point_identity)
  have b: "world_to_screen (Suc 0) init_store equal_clips_camera (Vector3 0 0 (- 5)) 100 100
           = None"
    unfolding world_to_screen_def view_matrix_def equal_clips_fields w2
    by (simp add: identity_inverse transform_point_identity equal_clips_projection)
  have c: "mat_mul shrunk_world shrunk_inverse = m_identity"
    "mat_mul shrunk_inverse shrunk_world = m_identity"
    "mat_mul m_identity m_identity = m_identity"
    by (simp_all add: mat_mul_def shrunk_world_def shrunk_inverse_def m_identity_def)
  have d: "transform_point shrunk_inverse (Vector3 0 0 0) = Vector3 0 0 (- 20480)"
    by (simp add: transform_point_def shrunk_inverse_def EPSILON_def Let_def)
  show ?thesis
    using set_position_placed [of 0] set_scale_shrink [of 0] w1 w2 a b c d
    by (simp add: transform_point_identity)
qed

section \<open>Scenario: the camera aimed at the origin\<close>

lemma sqrt_25: "sqrt 25 = 5"
  using sqrt_square_numeral [of 5] by simp

lemma normalized_down_z: "normalized (Vector3 0 0 (- 5)) = Some (Vector3 0 0 (- 1))"
  by (simp add: normalized_def magnitude_def sqrt_25 EPSILON_def py_div_def)

lemma normalized_left: "normalized (Vector3 (- 1) 0 0) = Some (Vector3 (- 1) 0 0)"
  by (simp add: normalized_def magnitude_def EPSILON_def py_div_def)

lemma look_rotation_down_z:
  "look_rotation (Vector3 0 0 (- 5)) (Vector3 0 1 0) = Some (Quaternion 0 1 0 0)"
  by (simp add: look_rotation_def normalized_down_z cross_def normalized_left
      from_matrix_def py_sqrt_def py_div_def sqrt_4 Let_def)

lemma set_position_eye:
  "set_position (Suc k) init_store 0 (Vector3 0 0 5)
   = Some (init_store(0 := new_transform\<lparr>t_position := Vector3 0 0 5\<rparr>))"
  by (simp add: set_position_def mark_dirty_def init_store_def new_transform_def)

lemma world_matrix_eye:
  "world_matrix (Suc k) (init_store(0 := new_transform\<lparr>t_position := Vector3 0 0 5\<rparr>)) 0
   = Some (Matrix4 1 0 0 0  0 1 0 0  0 0 1 5  0 0 0 1,
           init_store(0 := new_transform\<lparr>
             t_position := Vector3 0 0 5,
             t_local_matrix := Some (Matrix4 1 0 0 0  0 1 0 0  0 0 1 5  0 0 0 1),
             t_world_matrix := Some (Matrix4 1 0 0 0  0 1 0 0  0 0 1 5  0 0 0 1),
             t_local_dirty := False, t_world_dirty := False\<rparr>))"
  by (simp add: local_matrix_def init_store_def new_transform_def trs_def from_quaternion_def
      q_identity_def v_one_def Let_def)

lemma set_rotation_aim:
  "set_rotation (Suc k)
     (init_store(0 := new_transform\<lparr>
             t_position := Vector3 0 0 5,
             t_local_matrix := Some (Matrix4 1 0 0 0  0 1 0 0  0 0 1 5  0 0 0 1),
             t_world_matrix := Some (Matrix4 1 0 0 0  0 1 0 0  0 0 1 5  0 0 0 1),
             t_local_dirty := False, t_world_dirty := False\<rparr>)) 0 (Quaternion 0 1 0 0)
   = Some aimed_store"
  by (simp add: set_rotation_def mark_dirty_def aimed_store_def init_store_def new_transform_def)

lemma scenario_set_look_at:
  "set_look_at (Suc k) init_store scenario_camera (Vector3 0 0 5) (Vector3 0 0 0) (Vector3 0 1 0)
   = Some aimed_store"
proof -
  have t0: "t_parent (init_store 0) = None"
    by (simp add: init_store_def new_transform_def)
  have a: "set_world_position (Suc k) init_store 0 (Vector3 0 0 5)
           = Some (init_store(0 := new_transform\<lparr>t_position := Vector3 0 0 5\<rparr>))"
    unfolding set_world_position_def t0 by (simp only: option.simps set_position_eye)
  have b: "world_position (Suc k) (init_store(0 := new_transform\<lparr>t_position := Vector3 0 0 5\<rparr>)) 0
           = Some (Vector3 0 0 5,
               init_store(0 := new_transform\<lparr>
                 t_position := Vector3 0 0 5,
                 t_local_matrix := Some (Matrix4 1 0 0 0  0 1 0 0  0 0 1 5  0 0 0 1),
                 t_world_matrix := Some (Matrix4 1 0 0 0  0 1 0 0  0 0 1 5  0 0 0 1),
                 t_local_dirty := False, t_world_dirty := False\<rparr>))"
    unfolding world_position_def world_matrix_eye by (simp add: get_translation_def)
  have dir: "v_sub (Vector3 0 0 0) (Vector3 0 0 5) = Vector3 0 0 (- 5)"
    by (simp add: v_sub_def)
  have far: "\<not> magnitude_squared (Vector3 0 0 (- 5)) < EPSILON"
    by (simp add: magnitude_squared_def EPSILON_def)
  have c: "set_world_rotation (Suc k)
     (init_store(0 := new_transform\<lparr>
             t_position := Vector3 0 0 5,
             t_local_matrix := Some (Matrix4 1 0 0 0  0 1 0 0  0 0 1 5  0 0 0 1),
             t_world_matrix := Some (Matrix4 1 0 0 0  0 1 0 0  0 0 1 5  0 0 0 1),
             t_local_dirty := False, t_world_dirty := False\<rparr>)) 0 (Quaternion 0 1 0 0)
     = Some aimed_store"
    unfolding set_world_rotation_def set_rotation_aim
    by (simp add: new_transform_def)
  have "look_at (Suc k) (init_store(0 := new_transform\<lparr>t_position := Vector3 0 0 5\<rparr>)) 0
          (Vector3 0 0 0) (Vector3 0 1 0) = Some aimed_store"
    unfolding look_at_def b
    by (simp only: option.simps prod.case Let_def dir far if_False look_rotation_down_z c)
  then show ?thesis
    unfolding set_look_at_def scenario_transform a by simp
qed

lemma half_turn_inverse:
  "inverse_m (Matrix4 (- 1) 0 0 0  0 1 0 0  0 0 (- 1) 5  0 0 0 1)
   = Some (Matrix4 (- 1) 0 0 0  0 1 0 0  0 0 (- 1) 5  0 0 0 1)"
  by (simp add: inverse_m_def sub_s_def sub_c_def EPSILON_def Let_def)

lemma world_matrix_aimed:
  "world_matrix (Suc k) aimed_store 0
   = Some (Matrix4 (- 1) 0 0 0  0 1 0 0  0 0 (- 1) 5  0 0 0 1, viewed_store)"
  by (simp add: aimed_store_def viewed_store_def local_matrix_def init_store_def
      new_transform_def trs_def from_quaternion_def v_one_def Let_def)

lemma camera_forward_aimed:
  "camera_forward (Suc k) aimed_store scenario_camera = Some (Vector3 0 0 (- 1))"
  by (simp add: camera_forward_def scenario_transform aimed_store_def init_store_def
      new_transform_def q_forward_def rotate_vector_def cross_def v_add_def v_scale_def Let_def)

lemma origin_view_z:
  "transform_point (Matrix4 (- 1) 0 0 0  0 1 0 0  0 0 (- 1) 5  0 0 0 1) (Vector3 0 0 0)
   = Vector3 0 0 5"
  by (simp add: transform_point_def EPSILON_def Let_def)

lemma eye_inverse:
  "inverse_m (Matrix4 1 0 0 0  0 1 0 0  0 0 1 5  0 0 0 1)
   = Some (Matrix4 1 0 0 0  0 1 0 0  0 0 1 (- 5)  0 0 0 1)"
  by (simp add: inverse_m_def sub_s_def sub_c_def EPSILON_def Let_def)

lemma unturned_camera_projects_origin:
  "\<exists>s' c'. world_to_screen (Suc k)
       (init_store(0 := new_transform\<lparr>t_position := Vector3 0 0 5\<rparr>))
       scenario_camera (Vector3 0 0 0) 100 100
     = Some (Some (50, 50, 5), s', c')"
  unfolding world_to_screen_def view_matrix_def scenario_transform world_matrix_eye
    scenario_projection
  by (simp add: eye_inverse transform_point_def EPSILON_def Let_def)

lemma aimed_camera_sees_behind:
  "\<exists>d s' c'. world_to_screen (Suc k) aimed_store scenario_camera (Vector3 0 0 6) 100 100
     = Some (Some (50, 50, d), s', c')"
  unfolding world_to_screen_def view_matrix_def scenario_transform world_matrix_aimed
    scenario_projection
  by (simp add: half_turn_inverse transform_point_def EPSILON_def Let_def)

text \<open>
  Claim C6.  The camera of the scenario (field of view 60 degrees, aspect 1, near 0.1, far
  100) is placed and aimed by \<open>set_look_at\<close> with eye \<open>(0, 0, 5)\<close>, target \<open>(0, 0, 0)\<close> and up
  \<open>(0, 1, 0)\<close>.  The call returns, and it leaves the camera's \<open>forward\<close> at \<open>(0, 0, -1)\<close>,
  towards the origin.  Yet \<open>world_to_screen\<close> on the origin with a screen of 100 by 100
  returns \<open>None\<close> and no screen coordinates: \<open>look_rotation\<close> turns the +z axis of the
  transform towards the target, while \<open>world_to_screen\<close> keeps only the points of negative
  view z, so the origin has view z = 5 and is rejected as behind the camera.  (By
  \<open>unturned_camera_projects_origin\<close> the same camera at the same place, left unturned, so
  with its -z axis towards the origin, projects the origin to \<open>(50, 50)\<close> at depth 5; by
  \<open>aimed_camera_sees_behind\<close> the aimed camera projects \<open>(0, 0, 6)\<close>, the point behind it.)
\<close>

theorem look_at_camera_rejects_target:
  "set_look_at (Suc k) init_store scenario_camera (Vector3 0 0 5) (Vector3 0 0 0) (Vector3 0 1 0)
     = Some aimed_store
   \<and> camera_forward (Suc k) aimed_store scenario_camera = Some (Vector3 0 0 (- 1))
   \<and> world_to_screen (Suc k) aimed_store scenario_camera (Vector3 0 0 0) 100 100
     = Some (None, viewed_store, scenario_camera)"
proof -
  have "world_to_screen (Suc k) aimed_store scenario_camera (Vector3 0 0 0) 100 100
        = Some (None, viewed_store, scenario_camera)"
    unfolding world_to_screen_def view_matrix_def scenario_transform world_matrix_aimed
    by (simp add: half_turn_inverse origin_view_z)
  then show ?thesis
    using scenario_set_look_at camera_forward_aimed by simp
qed


end
